theory Spec2Isabelle
  imports Complex_Main "HOL-Library.Char_ord" "HOL-Library.List_Lexorder"
begin

section \<open>Dates of the runtime\<close>

text \<open>
  The date-time string format of ECMAScript, \<open>YYYY-MM-DDTHH:mm:ss.sssZ\<close> (the fraction
  may be left out): the shape \<open>toISOString\<close> produces and the record schema asks for.
  \<open>isoDateParse\<close> gives the milliseconds since the epoch, and \<open>None\<close> for every other
  text. It is the date parser of the statements about concrete records; the functions of
  the code take the parser as a parameter.
\<close>

definition isDigit :: "char \<Rightarrow> bool" where
  "isDigit c = (CHR ''0'' \<le> c \<and> c \<le> CHR ''9'')"

definition digitsValue :: "string \<Rightarrow> nat" where
  "digitsValue ds = foldl (\<lambda>n c. 10 * n + (of_char c - 48)) 0 ds"

text \<open>The decimal digit of a number below ten.\<close>

definition digitChar :: "nat \<Rightarrow> char" where
  "digitChar n = ''0123456789'' ! n"

definition isLeapYear :: "nat \<Rightarrow> bool" where
  "isLeapYear y = (y mod 4 = 0 \<and> (y mod 100 \<noteq> 0 \<or> y mod 400 = 0))"

definition daysInMonth :: "nat \<Rightarrow> nat \<Rightarrow> nat" where
  "daysInMonth y m =
     (if m = 2 then (if isLeapYear y then 29 else 28)
      else if m = 4 \<or> m = 6 \<or> m = 9 \<or> m = 11 then 30 else 31)"

definition daysFromCivil :: "int \<Rightarrow> int \<Rightarrow> int \<Rightarrow> int" where
  "daysFromCivil y m d =
     (let y' = (if m \<le> 2 then y - 1 else y);
          era = y' div 400;
          yoe = y' - era * 400;
          doy = (153 * (if m > 2 then m - 3 else m + 9) + 2) div 5 + d - 1;
          doe = yoe * 365 + yoe div 4 - yoe div 100 + doy
      in era * 146097 + doe - 719468)"

definition epochMs :: "int \<Rightarrow> int \<Rightarrow> int \<Rightarrow> int \<Rightarrow> int \<Rightarrow> int \<Rightarrow> int \<Rightarrow> int" where
  "epochMs y m d h mi se ms =
     (((daysFromCivil y m d * 24 + h) * 60 + mi) * 60 + se) * 1000 + ms"

definition fractionMs :: "string \<Rightarrow> nat option" where
  "fractionMs rest =
     (if rest = ''Z'' then Some 0
      else if 3 \<le> length rest \<and> hd rest = CHR ''.'' \<and> last rest = CHR ''Z''
              \<and> list_all isDigit (butlast (tl rest))
           then Some (digitsValue (take 3 (butlast (tl rest) @ ''00'')))
           else None)"

definition isoDateParse :: "string \<Rightarrow> int option" where
  "isoDateParse s =
     (if length s < 20 then None
      else let Y = take 4 s; M = take 2 (drop 5 s); D = take 2 (drop 8 s);
               h = take 2 (drop 11 s); mi = take 2 (drop 14 s); se = take 2 (drop 17 s);
               y = digitsValue Y; m = digitsValue M; d = digitsValue D
           in if s ! 4 = CHR ''-'' \<and> s ! 7 = CHR ''-'' \<and> s ! 10 = CHR ''T''
                 \<and> s ! 13 = CHR '':'' \<and> s ! 16 = CHR '':''
                 \<and> list_all isDigit (Y @ M @ D @ h @ mi @ se)
                 \<and> 1 \<le> m \<and> m \<le> 12 \<and> 1 \<le> d \<and> d \<le> daysInMonth y m
                 \<and> digitsValue h \<le> 23 \<and> digitsValue mi \<le> 59 \<and> digitsValue se \<le> 59
              then (case fractionMs (drop 19 s) of
                      None \<Rightarrow> None
                    | Some ms \<Rightarrow>
                        Some (epochMs (int y) (int m) (int d) (int (digitsValue h))
                                (int (digitsValue mi)) (int (digitsValue se)) (int ms)))
              else None)"

text \<open>
  A timestamp as \<open>toISOString\<close> writes it, \<open>YYYY-MM-DDTHH:mm:ss.sssZ\<close>: 24 characters
  that the parser accepts. \<open>normalizeDate\<close> returns such timestamps.
\<close>

definition isoTimestamp :: "string \<Rightarrow> bool" where
  "isoTimestamp s = (length s = 24 \<and> isoDateParse s \<noteq> None)"

text \<open>
  Two quantities of the day number, used to reason about it: the days before 1 March of
  a year (counted from 1 March of the year 0), and the days from 1 March to the first of
  a month.
\<close>

definition daysBeforeYear :: "int \<Rightarrow> int" where
  "daysBeforeYear y = 365 * y + y div 4 - y div 100 + y div 400"

definition monthStart :: "int \<Rightarrow> int" where
  "monthStart m = (153 * (if m > 2 then m - 3 else m + 9) + 2) div 5"

section \<open>Strings of the JavaScript runtime\<close>

text \<open>
  Strings are lists of characters; the model covers ASCII text. \<open>toLowerCase\<close> maps the
  letters \<open>A\<close>..\<open>Z\<close> to \<open>a\<close>..\<open>z\<close> and leaves every other character alone, and
  \<open>trim\<close> removes the ASCII white space and line terminators (TAB, LF, VT, FF, CR, SP) from
  both ends.
\<close>

definition isWhiteSpace :: "char \<Rightarrow> bool" where
  "isWhiteSpace c = (c = CHR 0x09 \<or> c = CHR 0x0A \<or> c = CHR 0x0B \<or> c = CHR 0x0C
                     \<or> c = CHR 0x0D \<or> c = CHR '' '')"

definition trim :: "string \<Rightarrow> string" where
  "trim s = rev (dropWhile isWhiteSpace (rev (dropWhile isWhiteSpace s)))"

definition toLowerChar :: "char \<Rightarrow> char" where
  "toLowerChar c = (if CHR ''A'' \<le> c \<and> c \<le> CHR ''Z''
                    then char_of (of_char c + (32::nat)) else c)"

definition toLowerCase :: "string \<Rightarrow> string" where
  "toLowerCase s = map toLowerChar s"

section \<open>Records of the ingestion pipeline\<close>

text \<open>
  \<open>NormalizedHackathon\<close> (types/ingestion.ts): optional fields are \<open>option\<close>s, the source
  is the three-valued enum of the schema, timestamps are the strings the code stores.
\<close>

datatype source = Devpost | MLH | Eventbrite

record NormalizedHackathon =
  title :: string
  description :: "string option"
  start_date :: string
  end_date :: string
  registration_deadline :: "string option"
  location :: string
  is_online :: bool
  website_url :: "string option"
  registration_url :: "string option"
  source :: source

section \<open>Deduplication: string similarity\<close>

text \<open>
  \<open>DeduplicationService.stringSimilarity\<close> (deduplication.ts, lines 96-126). The matrix has
  \<open>s2.length + 1\<close> rows of \<open>s1.length + 1\<close> cells, filled with \<open>null\<close>, which JavaScript
  arithmetic reads as 0. Cells are written in place; \<open>setCell m j i v\<close> is
  \<open>matrix[j][i] = v\<close>. All indices the loops use are inside the matrix.
\<close>

type_synonym matrix = "nat list list"

definition setCell :: "matrix \<Rightarrow> nat \<Rightarrow> nat \<Rightarrow> nat \<Rightarrow> matrix" where
  "setCell m j i v = m[j := (m ! j)[i := v]]"

definition newMatrix :: "nat \<Rightarrow> nat \<Rightarrow> matrix" where
  "newMatrix rows cols = replicate rows (replicate cols 0)"

text \<open>\<open>for (let i = 0; i <= s1.length; i++) matrix[0][i] = i\<close>\<close>

definition initFirstRow :: "nat \<Rightarrow> matrix \<Rightarrow> matrix" where
  "initFirstRow n1 m = foldl (\<lambda>m i. setCell m 0 i i) m [0..<Suc n1]"

text \<open>\<open>for (let j = 0; j <= s2.length; j++) matrix[j][0] = j\<close>\<close>

definition initFirstCol :: "nat \<Rightarrow> matrix \<Rightarrow> matrix" where
  "initFirstCol n2 m = foldl (\<lambda>m j. setCell m j 0 j) m [0..<Suc n2]"

text \<open>The body of the inner loop: one cell from its left, upper and upper-left neighbours.\<close>

definition fillCell :: "string \<Rightarrow> string \<Rightarrow> nat \<Rightarrow> matrix \<Rightarrow> nat \<Rightarrow> matrix" where
  "fillCell s1 s2 j m i =
     (let indicator = (if s1 ! (i - 1) = s2 ! (j - 1) then 0 else 1)
      in setCell m j i
           (min (min (m ! j ! (i - 1) + 1) (m ! (j - 1) ! i + 1))
                (m ! (j - 1) ! (i - 1) + indicator)))"

definition fillRow :: "string \<Rightarrow> string \<Rightarrow> matrix \<Rightarrow> nat \<Rightarrow> matrix" where
  "fillRow s1 s2 m j = foldl (fillCell s1 s2 j) m [1..<Suc (length s1)]"

definition fillMatrix :: "string \<Rightarrow> string \<Rightarrow> matrix \<Rightarrow> matrix" where
  "fillMatrix s1 s2 m = foldl (fillRow s1 s2) m [1..<Suc (length s2)]"

definition editMatrix :: "string \<Rightarrow> string \<Rightarrow> matrix" where
  "editMatrix s1 s2 =
     fillMatrix s1 s2
       (initFirstCol (length s2)
         (initFirstRow (length s1)
           (newMatrix (length s2 + 1) (length s1 + 1))))"

definition stringSimilarity :: "string \<Rightarrow> string \<Rightarrow> rat" where
  "stringSimilarity str1 str2 =
     (let s1 = trim (toLowerCase str1);
          s2 = trim (toLowerCase str2)
      in if s1 = s2 then 1
         else if length s1 = 0 \<or> length s2 = 0 then 0
         else let matrix = editMatrix s1 s2;
                  maxLength = max (length s1) (length s2)
              in (of_nat maxLength - of_nat (matrix ! length s2 ! length s1)) / of_nat maxLength)"

section \<open>Deduplication: the similarity score\<close>

text \<open>
  \<open>DeduplicationService.calculateSimilarity\<close> (lines 56-91). Numbers are exact rationals.
  \<open>new Date(s).getTime()\<close> belongs to the runtime, so the parser is a parameter
  \<open>dateParse\<close>: the milliseconds since the epoch, or \<open>None\<close> for an invalid date (NaN), with
  which every comparison is false.
\<close>

definition msPerDay :: rat where
  "msPerDay = 1000 * 60 * 60 * 24"

definition dateScore :: "(string \<Rightarrow> int option) \<Rightarrow> string \<Rightarrow> string \<Rightarrow> rat" where
  "dateScore dateParse d1 d2 =
     (if d1 = d2 then 0.3
      else (case (dateParse d1, dateParse d2) of
              (Some t1, Some t2) \<Rightarrow>
                (let daysDiff = of_int \<bar>t1 - t2\<bar> / msPerDay
                 in if daysDiff \<le> 3 then 0.15 else 0)
            | _ \<Rightarrow> 0))"

definition calculateSimilarity ::
  "(string \<Rightarrow> int option) \<Rightarrow> NormalizedHackathon \<Rightarrow> NormalizedHackathon \<Rightarrow> rat" where
  "calculateSimilarity dateParse h1 h2 =
     (let score = 0; factors = 0;
          titleSimilarity = stringSimilarity (title h1) (title h2);
          score = score + titleSimilarity * 0.4;
          factors = factors + 0.4;
          score = score + dateScore dateParse (start_date h1) (start_date h2);
          factors = factors + 0.3;
          locationSimilarity = stringSimilarity (location h1) (location h2);
          score = score + locationSimilarity * 0.2;
          factors = factors + 0.2;
          score = (if is_online h1 = is_online h2 then score + 0.1 else score);
          factors = factors + 0.1
      in score / factors)"

text \<open>\<open>isDuplicate(h1, h2, threshold = 0.85)\<close>: an omitted threshold is \<open>None\<close>.\<close>

definition defaultThreshold :: rat where
  "defaultThreshold = 0.85"

definition isDuplicate ::
  "(string \<Rightarrow> int option) \<Rightarrow> NormalizedHackathon \<Rightarrow> NormalizedHackathon \<Rightarrow> rat option \<Rightarrow> bool" where
  "isDuplicate dateParse h1 h2 threshold =
     (calculateSimilarity dateParse h1 h2 \<ge> (case threshold of None \<Rightarrow> defaultThreshold | Some t \<Rightarrow> t))"

section \<open>The Levenshtein distance\<close>

text \<open>
  The reference the similarity is compared with: the edit distance by its usual recursion
  on the two strings.
\<close>

fun levenshtein :: "'a list \<Rightarrow> 'a list \<Rightarrow> nat" where
  "levenshtein [] ys = length ys"
| "levenshtein xs [] = length xs"
| "levenshtein (x # xs) (y # ys) =
     min (min (levenshtein xs (y # ys) + 1) (levenshtein (x # xs) ys + 1))
         (levenshtein xs ys + (if x = y then 0 else 1))"

text \<open>\<open>1 - distance / max length\<close> on the lowercased, trimmed strings.\<close>

definition editSimilarity :: "string \<Rightarrow> string \<Rightarrow> rat" where
  "editSimilarity str1 str2 =
     (let s1 = trim (toLowerCase str1); s2 = trim (toLowerCase str2)
      in 1 - of_nat (levenshtein s1 s2) / of_nat (max (length s1) (length s2)))"

text \<open>The claim's date rule: both dates parse and lie at most \<open>days\<close> days apart.\<close>

definition startDatesWithin :: "(string \<Rightarrow> int option) \<Rightarrow> int \<Rightarrow> string \<Rightarrow> string \<Rightarrow> bool" where
  "startDatesWithin dateParse days d1 d2 =
     (case (dateParse d1, dateParse d2) of
        (Some t1, Some t2) \<Rightarrow> \<bar>t1 - t2\<bar> \<le> days * 86400000
      | _ \<Rightarrow> False)"

section \<open>Invariants of the edit-distance matrix\<close>

text \<open>
  The matrix keeps its shape, and cell \<open>(j, i)\<close>, once written, holds the distance between
  the first \<open>i\<close> characters of \<open>s1\<close> and the first \<open>j\<close> characters of \<open>s2\<close>.
  \<open>filledUpTo s1 s2 m j k\<close>: rows below \<open>j\<close>, column 0 and the first \<open>k\<close> cells of row
  \<open>j\<close> are written.
\<close>

definition wfMatrix :: "nat \<Rightarrow> nat \<Rightarrow> matrix \<Rightarrow> bool" where
  "wfMatrix n1 n2 m = (length m = Suc n2 \<and> (\<forall>j \<le> n2. length (m ! j) = Suc n1))"

definition prefixDistance :: "string \<Rightarrow> string \<Rightarrow> nat \<Rightarrow> nat \<Rightarrow> nat" where
  "prefixDistance s1 s2 i j = levenshtein (take i s1) (take j s2)"

definition filledUpTo :: "string \<Rightarrow> string \<Rightarrow> matrix \<Rightarrow> nat \<Rightarrow> nat \<Rightarrow> bool" where
  "filledUpTo s1 s2 m j k =
     (wfMatrix (length s1) (length s2) m \<and>
      (\<forall>j' \<le> length s2. \<forall>i \<le> length s1.
         (j' < j \<or> i = 0 \<or> (j' = j \<and> i < k)) \<longrightarrow> m ! j' ! i = prefixDistance s1 s2 i j'))"

record DuplicateGroup =
  original :: NormalizedHackathon
  duplicates :: "NormalizedHackathon list"

type_synonym scanState = "NormalizedHackathon list \<times> nat set"

definition scanStep ::
  "(string \<Rightarrow> int option) \<Rightarrow> NormalizedHackathon list \<Rightarrow> rat \<Rightarrow> nat \<Rightarrow> scanState \<Rightarrow> nat \<Rightarrow> scanState" where
  "scanStep dateParse hackathons threshold i st j =
     (case st of (dups, processed) \<Rightarrow>
        if j \<in> processed then (dups, processed)
        else if isDuplicate dateParse (hackathons ! i) (hackathons ! j) (Some threshold)
             then (dups @ [hackathons ! j], insert j processed)
             else (dups, processed))"

definition scanForward ::
  "(string \<Rightarrow> int option) \<Rightarrow> NormalizedHackathon list \<Rightarrow> rat \<Rightarrow> nat \<Rightarrow> nat set \<Rightarrow> scanState" where
  "scanForward dateParse hackathons threshold i processed =
     foldl (scanStep dateParse hackathons threshold i) ([], processed)
       [i + 1..<length hackathons]"

definition thresholdOrDefault :: "rat option \<Rightarrow> rat" where
  "thresholdOrDefault threshold = (case threshold of None \<Rightarrow> defaultThreshold | Some t \<Rightarrow> t)"

type_synonym passState = "DuplicateGroup list \<times> nat set"

definition visit ::
  "(string \<Rightarrow> int option) \<Rightarrow> NormalizedHackathon list \<Rightarrow> rat \<Rightarrow> passState \<Rightarrow> nat \<Rightarrow> passState" where
  "visit dateParse hackathons threshold st i =
     (case st of (duplicateGroups, processed) \<Rightarrow>
        if i \<in> processed then (duplicateGroups, processed)
        else (case scanForward dateParse hackathons threshold i processed of
                (dups, processed) \<Rightarrow>
                  (if length dups > 0
                   then duplicateGroups @ [\<lparr>original = hackathons ! i, duplicates = dups\<rparr>]
                   else duplicateGroups,
                   insert i processed)))"

definition findDuplicates ::
  "(string \<Rightarrow> int option) \<Rightarrow> NormalizedHackathon list \<Rightarrow> rat option \<Rightarrow> DuplicateGroup list" where
  "findDuplicates dateParse hackathons threshold =
     (let threshold = thresholdOrDefault threshold
      in fst (foldl (visit dateParse hackathons threshold) ([], {}) [0..<length hackathons]))"

text \<open>Index-level description of the groups.\<close>

definition groupAt :: "NormalizedHackathon list \<Rightarrow> nat \<times> nat list \<Rightarrow> DuplicateGroup" where
  "groupAt hs g = \<lparr>original = hs ! fst g, duplicates = map (\<lambda>j. hs ! j) (snd g)\<rparr>"

definition assignedBefore :: "(nat \<times> nat list) list \<Rightarrow> nat \<Rightarrow> nat \<Rightarrow> bool" where
  "assignedBefore G i j = (\<exists>g \<in> set G. fst g < i \<and> j \<in> set (snd g))"

definition laterDuplicates ::
  "(string \<Rightarrow> int option) \<Rightarrow> NormalizedHackathon list \<Rightarrow> rat \<Rightarrow> (nat \<times> nat list) list \<Rightarrow> nat \<Rightarrow> nat list" where
  "laterDuplicates dp hs t G i =
     filter (\<lambda>j. \<not> assignedBefore G i j \<and> isDuplicate dp (hs ! i) (hs ! j) (Some t))
       [i + 1..<length hs]"

definition greedyGrouping ::
  "(string \<Rightarrow> int option) \<Rightarrow> NormalizedHackathon list \<Rightarrow> rat \<Rightarrow> (nat \<times> nat list) list \<Rightarrow> bool" where
  "greedyGrouping dp hs t G =
     (sorted_wrt (<) (map fst G) \<and>
      (\<forall>i < length hs.
         (i \<in> fst ` set G) = (\<not> assignedBefore G i i \<and> laterDuplicates dp hs t G i \<noteq> [])) \<and>
      (\<forall>g \<in> set G. fst g < length hs \<and> snd g = laterDuplicates dp hs t G (fst g)))"

text \<open>Ghost functions of the proof: the inner scan and the pass on indices.\<close>

definition dupIdx ::
  "(string \<Rightarrow> int option) \<Rightarrow> NormalizedHackathon list \<Rightarrow> rat \<Rightarrow> nat \<Rightarrow> nat set \<Rightarrow> nat list" where
  "dupIdx dp hs t i P = filter (\<lambda>j. j \<notin> P \<and> isDuplicate dp (hs ! i) (hs ! j) (Some t)) [i + 1..<length hs]"

fun groupsIdx ::
  "(string \<Rightarrow> int option) \<Rightarrow> NormalizedHackathon list \<Rightarrow> rat \<Rightarrow> nat list \<Rightarrow> nat set \<Rightarrow> (nat \<times> nat list) list" where
  "groupsIdx dp hs t [] P = []"
| "groupsIdx dp hs t (i # is) P =
     (if i \<in> P then groupsIdx dp hs t is P
      else (if dupIdx dp hs t i P \<noteq> [] then [(i, dupIdx dp hs t i P)] else [])
           @ groupsIdx dp hs t is (insert i (P \<union> set (dupIdx dp hs t i P))))"

section \<open>Deduplication: merging a group\<close>

text \<open>
  \<open>DeduplicationService.mergeDuplicates\<close> (lines 179-211). An optional string is truthy
  when it is present and not empty; \<open>a || b\<close> is \<open>a\<close> when \<open>a\<close> is truthy and \<open>b\<close>
  otherwise. \<open>indexOf\<close> returns -1 for a value that is not in the array.
\<close>

definition truthy :: "string option \<Rightarrow> bool" where
  "truthy v = (case v of None \<Rightarrow> False | Some s \<Rightarrow> s \<noteq> [])"

definition jsOr :: "string option \<Rightarrow> string option \<Rightarrow> string option" where
  "jsOr a b = (if truthy a then a else b)"

fun indexOf :: "'a list \<Rightarrow> 'a \<Rightarrow> int" where
  "indexOf [] x = -1"
| "indexOf (y # ys) x =
     (if y = x then 0 else (let r = indexOf ys x in if r = -1 then -1 else r + 1))"

definition sourcePriority :: "source list" where
  "sourcePriority = [MLH, Devpost, Eventbrite]"

text \<open>The body of the loop over \<open>duplicates\<close> that chooses the base record.\<close>

definition pickBest :: "NormalizedHackathon \<Rightarrow> NormalizedHackathon \<Rightarrow> NormalizedHackathon" where
  "pickBest best duplicate =
     (let originalPriority = indexOf sourcePriority (source best);
          duplicatePriority = indexOf sourcePriority (source duplicate)
      in if duplicatePriority < originalPriority \<and> duplicatePriority \<noteq> -1
         then duplicate else best)"

definition mergeBase :: "NormalizedHackathon \<Rightarrow> NormalizedHackathon list \<Rightarrow> NormalizedHackathon" where
  "mergeBase orig dups = foldl pickBest orig dups"

text \<open>\<open>v?.length || 0\<close>\<close>

definition lengthOr0 :: "string option \<Rightarrow> nat" where
  "lengthOr0 v = (case v of None \<Rightarrow> 0 | Some s \<Rightarrow> length s)"

text \<open>\<open>allEvents.find(p)?.field\<close>: the field of the first event that satisfies \<open>p\<close>.\<close>

definition findField ::
  "(NormalizedHackathon \<Rightarrow> bool) \<Rightarrow> (NormalizedHackathon \<Rightarrow> string option) \<Rightarrow>
   NormalizedHackathon list \<Rightarrow> string option" where
  "findField p field allEvents = (case find p allEvents of None \<Rightarrow> None | Some e \<Rightarrow> field e)"

text \<open>
  \<open>allEvents.map(e => e.registration_deadline).filter(Boolean)\<close>: the deadlines that are
  present and not empty. \<open>sort()\<close> without a comparator orders strings by their code units.
\<close>

definition presentValues ::
  "(NormalizedHackathon \<Rightarrow> string option) \<Rightarrow> NormalizedHackathon list \<Rightarrow> string list" where
  "presentValues field allEvents =
     List.map_filter (\<lambda>e. if truthy (field e) then field e else None) allEvents"

definition firstOf :: "string list \<Rightarrow> string option" where
  "firstOf xs = (case xs of [] \<Rightarrow> None | x # _ \<Rightarrow> Some x)"

definition mergeDuplicates :: "NormalizedHackathon \<Rightarrow> NormalizedHackathon list \<Rightarrow> NormalizedHackathon" where
  "mergeDuplicates orig dups =
     (let best = mergeBase orig dups;
          allEvents = orig # dups
      in best
          \<lparr> description :=
              jsOr (findField (\<lambda>e. truthy (description e)
                                   \<and> lengthOr0 (description e) > lengthOr0 (description best))
                      description allEvents)
                   (description best),
            registration_deadline :=
              jsOr (firstOf (sort (presentValues registration_deadline allEvents)))
                   (registration_deadline best),
            registration_url :=
              jsOr (findField (\<lambda>e. truthy (registration_url e)) registration_url allEvents)
                   (registration_url best),
            website_url :=
              jsOr (website_url best)
                   (findField (\<lambda>e. truthy (website_url e)) website_url allEvents) \<rparr>)"

text \<open>
  The words of the merge policy for a URL: the base's own when it has one, and otherwise
  the first one present in the group.
\<close>

definition ownOrFirstPresent ::
  "(NormalizedHackathon \<Rightarrow> string option) \<Rightarrow> NormalizedHackathon \<Rightarrow> NormalizedHackathon list \<Rightarrow> string option" where
  "ownOrFirstPresent field base es =
     (if truthy (field base) then field base else firstOf (presentValues field es))"

text \<open>Three listings of one event, from three sources.\<close>

definition listingDevpost :: NormalizedHackathon where
  "listingDevpost = \<lparr>title = ''Hack'', description = Some ''bb'',
     start_date = ''2024-10-15T00:00:00.000Z'', end_date = ''2024-10-17T00:00:00.000Z'',
     registration_deadline = Some ''2024-10-10T00:00:00.000Z'', location = ''Online'',
     is_online = True, website_url = None, registration_url = Some ''https://d.example/r'',
     source = Devpost\<rparr>"

definition listingMLH :: NormalizedHackathon where
  "listingMLH = \<lparr>title = ''Hack!'', description = Some ''a'',
     start_date = ''2024-10-15T00:00:00.000Z'', end_date = ''2024-10-17T00:00:00.000Z'',
     registration_deadline = Some ''2024-10-12T00:00:00.000Z'', location = ''Online'',
     is_online = True, website_url = None, registration_url = Some ''https://m.example/r'',
     source = MLH\<rparr>"

definition listingEventbrite :: NormalizedHackathon where
  "listingEventbrite = \<lparr>title = ''Hack'', description = Some ''cccc'',
     start_date = ''2024-10-15T00:00:00.000Z'', end_date = ''2024-10-17T00:00:00.000Z'',
     registration_deadline = None, location = ''Online'',
     is_online = True, website_url = Some ''https://e.example'', registration_url = None,
     source = Eventbrite\<rparr>"

section \<open>Adapter validation\<close>

text \<open>
  Errors of the ingestion code (types/ingestion.ts): a plain \<open>Error\<close> with its message, and
  \<open>ScrapingError(message, source_id, url?, originalError?)\<close>.
\<close>

datatype jsError =
    Error string
  | ScrapingError string string "string option" "jsError option"

text \<open>
  \<open>Partial<NormalizedHackathon>\<close>: every field may be missing.
\<close>

record PartialHackathon =
  p_title :: "string option"
  p_description :: "string option"
  p_start_date :: "string option"
  p_end_date :: "string option"
  p_registration_deadline :: "string option"
  p_location :: "string option"
  p_is_online :: "bool option"
  p_website_url :: "string option"
  p_registration_url :: "string option"
  p_source :: "source option"

definition sourceTag :: "source \<Rightarrow> string" where
  "sourceTag s = (case s of Devpost \<Rightarrow> ''devpost'' | MLH \<Rightarrow> ''mlh'' | Eventbrite \<Rightarrow> ''eventbrite'')"

text \<open>\<open>data[field]\<close> for the five required fields, by name.\<close>

definition requiredField :: "PartialHackathon \<Rightarrow> string \<Rightarrow> string option" where
  "requiredField data field =
     (if field = ''title'' then p_title data
      else if field = ''start_date'' then p_start_date data
      else if field = ''end_date'' then p_end_date data
      else if field = ''location'' then p_location data
      else if field = ''source'' then map_option sourceTag (p_source data)
      else None)"

text \<open>\<open>xs.join(sep)\<close>\<close>

fun joinWith :: "string \<Rightarrow> string list \<Rightarrow> string" where
  "joinWith sep [] = []"
| "joinWith sep [x] = x"
| "joinWith sep (x # y # ys) = x @ sep @ joinWith sep (y # ys)"

text \<open>
  \<open>startDate >= endDate\<close> on two \<open>Date\<close> objects compares their time values; with an
  invalid date (NaN) the comparison is false.
\<close>

definition dateGe :: "int option \<Rightarrow> int option \<Rightarrow> bool" where
  "dateGe a b = (case (a, b) of (Some x, Some y) \<Rightarrow> x \<ge> y | _ \<Rightarrow> False)"

text \<open>
  \<open>BaseAdapter.validateHackathon\<close> (base-adapter.ts, lines 89-110); \<open>source_id\<close> is the
  adapter's. The non-null assertions \<open>data.start_date!\<close> are reached only with both
  strings present.
\<close>

definition validateHackathon ::
  "(string \<Rightarrow> int option) \<Rightarrow> string \<Rightarrow> PartialHackathon \<Rightarrow> jsError + unit" where
  "validateHackathon dateParse source_id data =
     (let required = [''title'', ''start_date'', ''end_date'', ''location'', ''source''];
          missing = filter (\<lambda>field. \<not> truthy (requiredField data field)) required
      in if length missing > 0
         then Inl (ScrapingError (''Missing required fields: '' @ joinWith '', '' missing)
                     source_id None None)
         else (let startDate = (case p_start_date data of Some s \<Rightarrow> dateParse s | None \<Rightarrow> None);
                   endDate = (case p_end_date data of Some s \<Rightarrow> dateParse s | None \<Rightarrow> None)
               in if dateGe startDate endDate
                  then Inl (ScrapingError ''Start date must be before end date'' source_id None None)
                  else Inr ()))"

text \<open>The five required fields are present and not empty.\<close>

definition allRequiredPresent :: "PartialHackathon \<Rightarrow> bool" where
  "allRequiredPresent d =
     (truthy (p_title d) \<and> truthy (p_start_date d) \<and> truthy (p_end_date d)
      \<and> truthy (p_location d) \<and> p_source d \<noteq> None)"

section \<open>The HTTP client\<close>

text \<open>
  \<open>HttpClient\<close> (utils/http-client.ts). The constructor reads each option with
  \<open>options.x || default\<close>, so a missing option and the number 0 both give the default.
\<close>

record HttpClientOptions =
  opt_userAgent :: "string option"
  opt_timeout :: "nat option"
  opt_maxRetries :: "nat option"
  opt_retryDelay :: "nat option"

record HttpClient =
  userAgent :: string
  timeout :: nat
  maxRetries :: nat
  retryDelay :: nat

definition numberOr :: "nat option \<Rightarrow> nat \<Rightarrow> nat" where
  "numberOr v d = (case v of None \<Rightarrow> d | Some n \<Rightarrow> if n = 0 then d else n)"

definition newHttpClient :: "HttpClientOptions \<Rightarrow> HttpClient" where
  "newHttpClient options =
     \<lparr>userAgent = (case opt_userAgent options of
                     None \<Rightarrow> ''HackathonSnifferBot/0.1''
                   | Some s \<Rightarrow> if s = [] then ''HackathonSnifferBot/0.1'' else s),
      timeout = numberOr (opt_timeout options) 15000,
      maxRetries = numberOr (opt_maxRetries options) 3,
      retryDelay = numberOr (opt_retryDelay options) 1000\<rparr>"

text \<open>
  What one call of \<open>fetch\<close> does: it resolves with a response (status, status text, body)
  or rejects with an error (transport failure, or the abort after the timeout). The network
  is a function from the attempt number to that outcome. The effects of a request are
  recorded as a trace of fetches and sleeps.
\<close>

datatype fetchOutcome =
    Response nat string string
  | Rejected jsError

datatype event =
    Fetch string nat
  | Sleep nat

text \<open>Decimal digits of a number, as template strings print it.\<close>

fun showNat :: "nat \<Rightarrow> string" where
  "showNat n = (if n < 10 then [digitChar n] else showNat (n div 10) @ [digitChar (n mod 10)])"

text \<open>The \<open>try\<close> block of \<open>makeRequest\<close>: \<open>response.ok\<close> holds for the statuses 200 to 299.\<close>

definition tryFetch :: "fetchOutcome \<Rightarrow> jsError + string" where
  "tryFetch outcome =
     (case outcome of
        Response status statusText text \<Rightarrow>
          if \<not> (200 \<le> status \<and> status \<le> 299)
          then Inl (Error (''HTTP '' @ showNat status @ '': '' @ statusText))
          else Inr text
      | Rejected error \<Rightarrow> Inl error)"

text \<open>\<open>HttpClient.makeRequest\<close> (lines 44-93); the first call has \<open>attempt = 1\<close>.\<close>

function makeRequest ::
  "HttpClient \<Rightarrow> (nat \<Rightarrow> fetchOutcome) \<Rightarrow> string \<Rightarrow> string \<Rightarrow> nat
   \<Rightarrow> (jsError + string) \<times> event list" where
  "makeRequest c net url source_id attempt =
     (case tryFetch (net attempt) of
        Inr text \<Rightarrow> (Inr text, [Fetch url attempt])
      | Inl error \<Rightarrow>
          if attempt < maxRetries c
          then (let delay = retryDelay c * 2 ^ (attempt - 1);
                    (result, trace) = makeRequest c net url source_id (attempt + 1)
                in (result, [Fetch url attempt, Sleep delay] @ trace))
          else (Inl (ScrapingError
                       (''Failed to fetch '' @ url @ '' after '' @ showNat (maxRetries c) @ '' attempts'')
                       source_id (Some url) (Some error)),
                [Fetch url attempt]))"
  by pat_completeness auto
termination
  by (relation "measure (\<lambda>(c, net, url, source_id, attempt). maxRetries c - attempt)") auto

text \<open>
  \<open>HttpClient.get\<close>: the rate limiter schedules the request and hands on its result; the
  waiting it adds is outside this model.
\<close>

definition get :: "HttpClient \<Rightarrow> (nat \<Rightarrow> fetchOutcome) \<Rightarrow> string \<Rightarrow> string \<Rightarrow> (jsError + string) \<times> event list" where
  "get c net url source_id = makeRequest c net url source_id 1"

text \<open>The words of the claim: the fetch fails at every attempt, and the trace of a failed request.\<close>

definition alwaysFails :: "(nat \<Rightarrow> fetchOutcome) \<Rightarrow> nat \<Rightarrow> bool" where
  "alwaysFails net n = list_all (\<lambda>k. isl (tryFetch (net k))) [1..<Suc n]"

definition failureOf :: "fetchOutcome \<Rightarrow> jsError" where
  "failureOf outcome = (case tryFetch outcome of Inl e \<Rightarrow> e | Inr text \<Rightarrow> Error [])"

definition retryTrace :: "HttpClient \<Rightarrow> string \<Rightarrow> nat \<Rightarrow> event list" where
  "retryTrace c url a =
     concat (map (\<lambda>k. [Fetch url k, Sleep (retryDelay c * 2 ^ (k - 1))]) [a..<maxRetries c])
     @ [Fetch url (maxRetries c)]"

definition serverDown :: "nat \<Rightarrow> fetchOutcome" where
  "serverDown attempt = Response 503 ''Service Unavailable'' []"

definition defaultOptions :: HttpClientOptions where
  "defaultOptions = \<lparr>opt_userAgent = None, opt_timeout = None, opt_maxRetries = None, opt_retryDelay = None\<rparr>"

section \<open>The robots.txt check\<close>

text \<open>String methods of the runtime that the check uses.\<close>

definition startsWith :: "string \<Rightarrow> string \<Rightarrow> bool" where
  "startsWith s p = (take (length p) s = p)"

definition includesStr :: "string \<Rightarrow> string \<Rightarrow> bool" where
  "includesStr s sub = list_ex (\<lambda>i. take (length sub) (drop i s) = sub) [0..<Suc (length s)]"

fun splitOn :: "char \<Rightarrow> string \<Rightarrow> string list" where
  "splitOn c [] = [[]]"
| "splitOn c (x # xs) =
     (if x = c then [] # splitOn c xs
      else (case splitOn c xs of [] \<Rightarrow> [[x]] | w # ws \<Rightarrow> (x # w) # ws))"

text \<open>
  \<open>HttpClient.isAllowedByRobotsTxt\<close> (http-client.ts, lines 110-159). The state of the
  loop over the lines.
\<close>

record robotsState =
  currentUserAgent :: string
  isRelevantSection :: bool
  disallowed :: "string list"
  allowed :: "string list"

definition robotsLine :: "string \<Rightarrow> robotsState \<Rightarrow> string \<Rightarrow> robotsState" where
  "robotsLine agent st line =
     (if startsWith line ''user-agent:''
      then (let cua = trim (drop (length ''user-agent:'') line)
            in \<lparr>currentUserAgent = cua,
                isRelevantSection = (cua = ''*'' \<or> cua = toLowerCase agent
                                     \<or> includesStr (toLowerCase agent) cua),
                disallowed = [], allowed = []\<rparr>)
      else if isRelevantSection st
      then (if startsWith line ''disallow:''
            then (let disallowPath = trim (drop (length ''disallow:'') line)
                  in if disallowPath \<noteq> [] then st\<lparr>disallowed := disallowed st @ [disallowPath]\<rparr> else st)
            else if startsWith line ''allow:''
            then (let allowPath = trim (drop (length ''allow:'') line)
                  in if allowPath \<noteq> [] then st\<lparr>allowed := allowed st @ [allowPath]\<rparr> else st)
            else st)
      else st)"

definition robotsLines :: "string \<Rightarrow> string list" where
  "robotsLines robotsContent = map (\<lambda>line. toLowerCase (trim line)) (splitOn CHR 0x0A robotsContent)"

definition robotsRules :: "string \<Rightarrow> string list \<Rightarrow> robotsState" where
  "robotsRules agent lines =
     foldl (robotsLine agent)
       \<lparr>currentUserAgent = [], isRelevantSection = False, disallowed = [], allowed = []\<rparr> lines"

definition isAllowedByRobotsTxt :: "string option \<Rightarrow> string \<Rightarrow> string \<Rightarrow> bool" where
  "isAllowedByRobotsTxt robotsContent agent path =
     (case robotsContent of
        None \<Rightarrow> True
      | Some content \<Rightarrow>
          if content = [] then True
          else (let st = robotsRules agent (robotsLines content)
                in if list_ex (\<lambda>allowPattern. startsWith path allowPattern) (allowed st) then True
                   else if list_ex (\<lambda>disallowPattern. startsWith path disallowPattern) (disallowed st)
                   then False
                   else True))"

section \<open>Adapters and the run of one adapter\<close>

text \<open>
  An adapter (\<open>BaseAdapter\<close> and its subclasses): its identity, the paths it scrapes, and
  \<open>scrape\<close>, whose result comes with the trace of the fetches it made.
\<close>

record Adapter =
  a_source_id :: string
  a_name :: string
  a_baseUrl :: string
  getScrapingPaths :: "string list"
  scrape :: "(jsError + NormalizedHackathon list) \<times> event list"

text \<open>
  \<open>BaseAdapter.isRobotsTxtCompliant\<close> (base-adapter.ts, lines 16-42). \<open>robotsContent\<close> is
  what \<open>checkRobotsTxt\<close> returned: the file, or \<open>null\<close> when it could not be fetched.
\<close>

definition isRobotsTxtCompliant :: "Adapter \<Rightarrow> string option \<Rightarrow> bool" where
  "isRobotsTxtCompliant adapter robotsContent =
     (if \<not> truthy robotsContent then True
      else list_all (\<lambda>path. isAllowedByRobotsTxt robotsContent ''HackathonSnifferBot'' path)
             (getScrapingPaths adapter))"

text \<open>
  \<open>IngestionScheduler.runAdapterIngestion\<close> (scheduler.ts, lines 97-147). The processing of
  one scraped event against the store is a parameter \<open>processEvent\<close>; it returns the updated
  counters or the error it threw.
\<close>

record ScrapingResult =
  r_source_id :: string
  events_found :: nat
  events_processed :: nat
  events_created :: nat
  events_updated :: nat
  errors :: "string list"

definition errorMessage :: "jsError \<Rightarrow> string" where
  "errorMessage e = (case e of Error m \<Rightarrow> m | ScrapingError m s u c \<Rightarrow> m)"

definition processOne ::
  "(NormalizedHackathon \<Rightarrow> ScrapingResult \<Rightarrow> jsError + ScrapingResult) \<Rightarrow>
   ScrapingResult \<Rightarrow> NormalizedHackathon \<Rightarrow> ScrapingResult" where
  "processOne processEvent result ev =
     (case processEvent ev result of
        Inr result' \<Rightarrow> result'\<lparr>events_processed := events_processed result' + 1\<rparr>
      | Inl error \<Rightarrow>
          result\<lparr>errors := errors result @ [''Event processing error: '' @ errorMessage error]\<rparr>)"

definition runAdapterIngestion ::
  "(NormalizedHackathon \<Rightarrow> ScrapingResult \<Rightarrow> jsError + ScrapingResult) \<Rightarrow>
   Adapter \<Rightarrow> string option \<Rightarrow> ScrapingResult \<times> event list" where
  "runAdapterIngestion processEvent adapter robotsContent =
     (let result = \<lparr>r_source_id = a_source_id adapter, events_found = 0, events_processed = 0,
                     events_created = 0, events_updated = 0, errors = []\<rparr>
      in if \<not> isRobotsTxtCompliant adapter robotsContent
         then (result\<lparr>errors := errors result @
                 [''Adapter error: '' @ a_name adapter @ '' scraping is not compliant with robots.txt'']\<rparr>,
               [])
         else (case scrape adapter of
                 (Inl error, trace) \<Rightarrow>
                   (result\<lparr>errors := errors result @ [''Adapter error: '' @ errorMessage error]\<rparr>, trace)
               | (Inr scrapedEvents, trace) \<Rightarrow>
                   (foldl (processOne processEvent)
                      (result\<lparr>events_found := length scrapedEvents\<rparr>) scrapedEvents,
                    trace)))"

text \<open>
  Two robots.txt files and the Devpost adapter's declaration. Both files have
  \<open>Disallow: /hackathons\<close> under \<open>User-agent: *\<close>; in the second a block for another
  crawler follows.
\<close>

definition robotsPlain :: string where
  "robotsPlain = ''User-agent: *'' @ [CHR 0x0A] @ ''Disallow: /hackathons''"

definition robotsTwoBlocks :: string where
  "robotsTwoBlocks = ''User-agent: *'' @ [CHR 0x0A] @ ''Disallow: /hackathons'' @ [CHR 0x0A]
     @ [CHR 0x0A] @ ''User-agent: Googlebot'' @ [CHR 0x0A] @ ''Disallow: /private''"

definition devpostAdapter :: "(jsError + NormalizedHackathon list) \<times> event list \<Rightarrow> Adapter" where
  "devpostAdapter scraping =
     \<lparr>a_source_id = ''devpost'', a_name = ''Devpost'', a_baseUrl = ''https://devpost.com'',
      getScrapingPaths = [''/hackathons''], scrape = scraping\<rparr>"

definition processNothing :: "NormalizedHackathon \<Rightarrow> ScrapingResult \<Rightarrow> jsError + ScrapingResult" where
  "processNothing ev result = Inr result"

section \<open>The scheduler\<close>

text \<open>
  \<open>IngestionScheduler\<close> (scheduler.ts). JavaScript runs one callback at a time, so the
  guard \<open>if (this.isRunning)\<close> and the assignment \<open>this.isRunning = true\<close>, with no
  \<open>await\<close> between them, are one step. A run then proceeds through its awaits and store
  writes, interleaved with other callbacks, until its \<open>finally\<close> block resets the flag.
  Besides the flag of the source the state records what the claim speaks about: the runs
  whose body is in progress, the count of runs started (the number of the next run), the
  lines the guards log (without their emoji), and the store writes, each marked with the
  number of the run that made it.
\<close>

record Scheduler =
  isRunning :: bool
  inFlight :: "nat list"
  started :: nat
  console :: "string list"
  storeWrites :: "nat list"

datatype callResult =
    RunStarted nat
  | Skipped
  | Thrown jsError

text \<open>\<open>runIngestion\<close> (lines 65-95), up to its first \<open>await\<close>.\<close>

definition runIngestion :: "Scheduler \<Rightarrow> callResult \<times> Scheduler" where
  "runIngestion s =
     (if isRunning s then (Thrown (Error ''Ingestion is already running''), s)
      else (RunStarted (started s),
            s\<lparr>isRunning := True,
              inFlight := inFlight s @ [started s],
              started := started s + 1,
              console := console s @ [''Starting ingestion process...'']\<rparr>))"

text \<open>The \<open>finally\<close> block of run \<open>r\<close>, reached when the run returns or throws.\<close>

definition finishRun :: "nat \<Rightarrow> Scheduler \<Rightarrow> Scheduler" where
  "finishRun r s =
     (if r \<in> set (inFlight s)
      then s\<lparr>isRunning := False, inFlight := removeAll r (inFlight s)\<rparr>
      else s)"

text \<open>A create or update on the store by run \<open>r\<close>, while its body is in progress.\<close>

definition storeWrite :: "nat \<Rightarrow> Scheduler \<Rightarrow> Scheduler" where
  "storeWrite r s =
     (if r \<in> set (inFlight s) then s\<lparr>storeWrites := storeWrites s @ [r]\<rparr> else s)"

text \<open>The callback that \<open>start\<close> registers with cron (lines 46-57).\<close>

definition cronTick :: "Scheduler \<Rightarrow> callResult \<times> Scheduler" where
  "cronTick s =
     (if isRunning s
      then (Skipped, s\<lparr>console := console s @ [''Ingestion already running, skipping this cycle'']\<rparr>)
      else runIngestion s)"

datatype schedulerEvent =
    CronTick
  | ManualTrigger
  | StoreWrite nat
  | RunEnds nat

definition schedulerStep :: "Scheduler \<Rightarrow> schedulerEvent \<Rightarrow> Scheduler" where
  "schedulerStep s ev =
     (case ev of
        CronTick \<Rightarrow> snd (cronTick s)
      | ManualTrigger \<Rightarrow> snd (runIngestion s)
      | StoreWrite r \<Rightarrow> storeWrite r s
      | RunEnds r \<Rightarrow> finishRun r s)"

definition newScheduler :: Scheduler where
  "newScheduler = \<lparr>isRunning = False, inFlight = [], started = 0, console = [], storeWrites = []\<rparr>"

definition afterEvents :: "schedulerEvent list \<Rightarrow> Scheduler" where
  "afterEvents evs = foldl schedulerStep newScheduler evs"

text \<open>The invariant of the proof, and the words of the claim on store writes.\<close>

definition schedulerInv :: "Scheduler \<Rightarrow> bool" where
  "schedulerInv s =
     (length (inFlight s) \<le> 1 \<and> isRunning s = (inFlight s \<noteq> [])
      \<and> (\<forall>r \<in> set (inFlight s). r < started s)
      \<and> (\<forall>w \<in> set (storeWrites s). w < started s)
      \<and> (\<forall>w \<in> set (storeWrites s). \<forall>r \<in> set (inFlight s). w \<le> r)
      \<and> sorted (storeWrites s))"

definition neverInterleaved :: "nat list \<Rightarrow> bool" where
  "neverInterleaved ws =
     (\<forall>i j k. i < j \<and> j < k \<and> k < length ws \<and> ws ! i = ws ! k \<longrightarrow> ws ! j = ws ! i)"

definition duringFirstRun :: Scheduler where
  "duringFirstRun = afterEvents [CronTick, StoreWrite 0]"

section \<open>Date-range texts\<close>













text \<open>\<open>text.replace(/\s+/g, ' ')\<close>\<close>

function collapseSpaces :: "string \<Rightarrow> string" where
  "collapseSpaces [] = []"
| "collapseSpaces (c # cs) =
     (if isWhiteSpace c then CHR '' '' # collapseSpaces (dropWhile isWhiteSpace cs)
      else c # collapseSpaces cs)"
  by pat_completeness auto
termination
  by (relation "measure length") (auto simp: le_imp_less_Suc length_dropWhile_le)








text \<open>
  \<open>BaseAdapter.normalizeDate\<close> (lines 52-62) and the second half of \<open>parseDateRange\<close>. The
  \<open>Date\<close> constructor and \<open>toISOString\<close> belong to the runtime and are parameters; an
  invalid date makes \<open>toISOString\<close> throw, which \<open>parseDateRange\<close> catches and answers
  with \<open>null\<close>.
\<close>

definition normalizeDate ::
  "(string \<Rightarrow> int option) \<Rightarrow> (int \<Rightarrow> string) \<Rightarrow> string \<Rightarrow> string \<Rightarrow> jsError + string" where
  "normalizeDate dateParse toISOString source_id dateStr =
     (case dateParse dateStr of
        None \<Rightarrow> Inl (ScrapingError (''Failed to normalize date: '' @ dateStr) source_id None None)
      | Some t \<Rightarrow> Inr (toISOString t))"





text \<open>
  \<open>Date.prototype.toISOString\<close> for the years 0000 to 9999, the inverse of the ISO parser
  above: used where a statement needs a concrete runtime.
\<close>

definition twoDigits :: "nat \<Rightarrow> string" where
  "twoDigits n = [digitChar (n div 10 mod 10), digitChar (n mod 10)]"

definition threeDigits :: "nat \<Rightarrow> string" where
  "threeDigits n = digitChar (n div 100 mod 10) # twoDigits n"

definition fourDigits :: "nat \<Rightarrow> string" where
  "fourDigits n = digitChar (n div 1000 mod 10) # threeDigits n"

text \<open>
  The civil date of a day number (days since 1970-01-01), by eras of 400 years that start
  on 1 March: the year of the era, the day of that year, the month counted from March.
\<close>

definition yearOfEra :: "int \<Rightarrow> int" where
  "yearOfEra doe = (doe - doe div 1460 + doe div 36524 - doe div 146096) div 365"

definition dayOfYear :: "int \<Rightarrow> int \<Rightarrow> int" where
  "dayOfYear doe yoe = doe - (365 * yoe + yoe div 4 - yoe div 100)"

definition monthFromMarch :: "int \<Rightarrow> int" where
  "monthFromMarch doy = (5 * doy + 2) div 153"

definition civilOfMonth :: "int \<Rightarrow> int \<Rightarrow> int \<Rightarrow> int \<times> int \<times> int" where
  "civilOfMonth y mp d = (if mp < 10 then (y, mp + 3, d) else (y + 1, mp - 9, d))"

definition civilOfYear :: "int \<Rightarrow> int \<Rightarrow> int \<Rightarrow> int \<times> int \<times> int" where
  "civilOfYear y doy mp = civilOfMonth y mp (doy - (153 * mp + 2) div 5 + 1)"

definition civilOfEra :: "int \<Rightarrow> int \<Rightarrow> int \<Rightarrow> int \<times> int \<times> int" where
  "civilOfEra era doe yoe =
     civilOfYear (yoe + era * 400) (dayOfYear doe yoe) (monthFromMarch (dayOfYear doe yoe))"

definition civilFromDays :: "int \<Rightarrow> int \<times> int \<times> int" where
  "civilFromDays days =
     civilOfEra ((days + 719468) div 146097) ((days + 719468) mod 146097)
       (yearOfEra ((days + 719468) mod 146097))"

definition isoText :: "int \<times> int \<times> int \<Rightarrow> nat \<Rightarrow> string" where
  "isoText date ms =
     (case date of (y, m, d) \<Rightarrow>
        fourDigits (nat y) @ ''-'' @ twoDigits (nat m) @ ''-'' @ twoDigits (nat d) @ ''T''
        @ twoDigits (ms div 3600000) @ '':'' @ twoDigits (ms div 60000 mod 60) @ '':''
        @ twoDigits (ms div 1000 mod 60) @ ''.'' @ threeDigits (ms mod 1000) @ ''Z'')"

definition isoDateString :: "int \<Rightarrow> string" where
  "isoDateString t = isoText (civilFromDays (t div 86400000)) (nat (t mod 86400000))"





section \<open>Devpost: events from structured data\<close>

text \<open>
  \<open>BaseAdapter.cleanText\<close> (base-adapter.ts, lines 67-72):
  \<open>text.replace(/\s+/g, ' ').replace(/\n+/g, ' ').trim()\<close>.
\<close>

function collapseNewlines :: "string \<Rightarrow> string" where
  "collapseNewlines [] = []"
| "collapseNewlines (c # cs) =
     (if c = CHR 0x0A then CHR '' '' # collapseNewlines (dropWhile (\<lambda>x. x = CHR 0x0A) cs)
      else c # collapseNewlines cs)"
  by pat_completeness auto
termination
  by (relation "measure length") (auto simp: le_imp_less_Suc length_dropWhile_le)

definition cleanText :: "string \<Rightarrow> string" where
  "cleanText text = trim (collapseNewlines (collapseSpaces text))"

text \<open>
  A JSON-LD object as \<open>parseStructuredEvent\<close> reads it: the fields \<open>@type\<close>, \<open>name\<close>,
  \<open>description\<close>, \<open>url\<close>, \<open>startDate\<close> and \<open>endDate\<close> are texts or absent; \<open>location\<close> is
  absent, a text, or a place object with or without a \<open>name\<close>.
\<close>

datatype eventLocation = LocationText string | Place "string option"

record StructuredEvent =
  ev_type :: "string option"
  ev_name :: "string option"
  ev_description :: "string option"
  ev_url :: "string option"
  ev_startDate :: "string option"
  ev_endDate :: "string option"
  ev_location :: "eventLocation option"

text \<open>
  \<open>event.location?.name || event.location\<close>: a text (or nothing), or the place object
  itself when it has no name; on the object \<open>cleanText\<close> throws a \<open>TypeError\<close>.
\<close>

definition locationOf :: "eventLocation option \<Rightarrow> jsError + string option" where
  "locationOf l =
     (case l of
        None \<Rightarrow> Inr None
      | Some (LocationText s) \<Rightarrow> Inr (Some s)
      | Some (Place n) \<Rightarrow>
          if truthy n then Inr n else Inl (Error ''text.replace is not a function''))"

text \<open>
  \<open>DevpostAdapter.parseStructuredEvent\<close> (devpost-adapter.ts, lines 630-660). The record is
  built and returned as it is; every error is caught and answered with \<open>null\<close>.
\<close>

definition parseStructuredEvent ::
  "(string \<Rightarrow> int option) \<Rightarrow> (int \<Rightarrow> string) \<Rightarrow> string \<Rightarrow> StructuredEvent
   \<Rightarrow> NormalizedHackathon option" where
  "parseStructuredEvent dateParse toISOString baseUrl event =
     (if ev_type event \<noteq> Some ''Event'' then None
      else if list_ex (\<lambda>v. \<not> truthy v)
                [ev_name event, ev_url event, ev_startDate event, ev_endDate event] then None
      else
        (case (ev_name event, ev_url event, ev_startDate event, ev_endDate event) of
           (Some name, Some url, Some startDate, Some endDate) \<Rightarrow>
             (case (normalizeDate dateParse toISOString ''devpost'' startDate,
                    normalizeDate dateParse toISOString ''devpost'' endDate,
                    locationOf (ev_location event)) of
                (Inr startIso, Inr endIso, Inr place) \<Rightarrow>
                  Some \<lparr>title = cleanText name,
                        description =
                          (if truthy (ev_description event)
                           then map_option cleanText (ev_description event) else None),
                        start_date = startIso,
                        end_date = endIso,
                        registration_deadline = None,
                        location = cleanText (the (jsOr place (Some ''Online''))),
                        is_online =
                          (if \<not> truthy place then True
                           else includesStr (toLowerCase (the place)) ''online''),
                        website_url =
                          Some (if startsWith url ''http'' then url else baseUrl @ url),
                        registration_url = None,
                        source = Devpost\<rparr>
              | _ \<Rightarrow> None)
         | _ \<Rightarrow> None))"

text \<open>
  The loop of \<open>extractStructuredData\<close> (lines 610-616) over the events of one script tag:
  every record that \<open>parseStructuredEvent\<close> returns is pushed to the result of the scrape.
\<close>

definition structuredEvents ::
  "(string \<Rightarrow> int option) \<Rightarrow> (int \<Rightarrow> string) \<Rightarrow> string \<Rightarrow> StructuredEvent list
   \<Rightarrow> NormalizedHackathon list" where
  "structuredEvents dateParse toISOString baseUrl events =
     List.map_filter (parseStructuredEvent dateParse toISOString baseUrl) events"

text \<open>A record as the argument of \<open>validateHackathon\<close>.\<close>

definition asPartial :: "NormalizedHackathon \<Rightarrow> PartialHackathon" where
  "asPartial h =
     \<lparr>p_title = Some (title h), p_description = description h,
      p_start_date = Some (start_date h), p_end_date = Some (end_date h),
      p_registration_deadline = registration_deadline h, p_location = Some (location h),
      p_is_online = Some (is_online h), p_website_url = website_url h,
      p_registration_url = registration_url h, p_source = Some (source h)\<rparr>"

text \<open>A JSON-LD event of a Devpost page whose end date lies before its start date.\<close>

definition reversedEvent :: StructuredEvent where
  "reversedEvent =
     \<lparr>ev_type = Some ''Event'', ev_name = Some ''Hack'', ev_description = None,
      ev_url = Some ''https://devpost.com/hack'',
      ev_startDate = Some ''2024-10-17T00:00:00.000Z'',
      ev_endDate = Some ''2024-10-15T00:00:00.000Z'', ev_location = None\<rparr>"

section \<open>Canonical URLs\<close>

text \<open>
  \<open>canonicalizeUrl\<close> works on a \<open>URL\<close> object of the platform. The object is modelled as
  the URL record of the URL Standard with its components in serialised form: the host
  (\<open>None\<close> for the null host), the port, the serialised path and whether it is an opaque
  path, the query and the fragment (\<open>None\<close> for null). The parser behind \<open>new URL(url)\<close>,
  which throws on a text that is not a URL, and the \<open>application/x-www-form-urlencoded\<close>
  parser and serialiser behind \<open>searchParams\<close> are parameters.
\<close>

record URL =
  u_scheme :: string
  u_username :: string
  u_password :: string
  u_host :: "string option"
  u_port :: "string option"
  u_opaquePath :: bool
  u_pathname :: string
  u_query :: "string option"
  u_fragment :: "string option"


definition isSpecial :: "URL \<Rightarrow> bool" where
  "isSpecial u = (u_scheme u \<in> set [''ftp'', ''file'', ''http'', ''https'', ''ws'', ''wss''])"

definition includesCredentials :: "URL \<Rightarrow> bool" where
  "includesCredentials u = (u_username u \<noteq> [] \<or> u_password u \<noteq> [])"

text \<open>The getter \<open>hostname\<close>: the empty text for the null host.\<close>

definition hostnameOf :: "URL \<Rightarrow> string" where
  "hostnameOf u = (case u_host u of None \<Rightarrow> [] | Some h \<Rightarrow> h)"

text \<open>
  The setter \<open>hostname\<close>, for a value without the delimiters \<open>: / ? #\<close> (the value set
  here is the hostname itself or the hostname without a leading \<open>www.\<close>, and host parsing
  leaves it as it is). A URL with an opaque path is left alone. For the scheme \<open>file\<close> the
  host is set, \<open>localhost\<close> becoming the empty host. Otherwise an empty value is refused
  when the scheme is special or the URL has credentials or a port; in every other case
  the value becomes the host.
\<close>

definition setHostname :: "string \<Rightarrow> URL \<Rightarrow> URL" where
  "setHostname v u =
     (if u_opaquePath u then u
      else if u_scheme u = ''file'' then u\<lparr>u_host := Some (if v = ''localhost'' then [] else v)\<rparr>
      else if v = [] \<and> (isSpecial u \<or> includesCredentials u \<or> u_port u \<noteq> None) then u
      else u\<lparr>u_host := Some v\<rparr>)"














section \<open>Example records\<close>

text \<open>Two pairs of listings: the same event on two sources, twice.\<close>

definition hackA :: NormalizedHackathon where
  "hackA = \<lparr>title = ''Hack'', description = None, start_date = ''2024-10-15T00:00:00.000Z'',
     end_date = ''2024-10-17T00:00:00.000Z'', registration_deadline = None, location = ''Online'',
     is_online = True, website_url = None, registration_url = None, source = Devpost\<rparr>"

definition hackC :: NormalizedHackathon where
  "hackC = \<lparr>title = ''Zed'', description = None, start_date = ''2025-01-10T00:00:00.000Z'',
     end_date = ''2025-01-12T00:00:00.000Z'', registration_deadline = None, location = ''Oslo'',
     is_online = False, website_url = None, registration_url = None, source = Eventbrite\<rparr>"

definition fourHacks :: "NormalizedHackathon list" where
  "fourHacks = [hackA, hackA\<lparr>source := MLH\<rparr>, hackC, hackC\<lparr>source := MLH\<rparr>]"

section \<open>Timestamps in the format of \<open>toISOString\<close>: string order is time order\<close>

subsection \<open>Day numbers grow with the civil date\<close>

lemma div_shift:
  fixes y q :: int
  shows "(y - q * 400) div 4 = y div 4 - q * 100" "(y - q * 400) div 100 = y div 100 - q * 4"
proof -
  have "y - q * 400 = y + 4 * (- (q * 100))" by simp
  then show "(y - q * 400) div 4 = y div 4 - q * 100"
    by (simp only: div_mult_self2)
  have "y - q * 400 = y + 100 * (- (q * 4))" by simp
  then show "(y - q * 400) div 100 = y div 100 - q * 4"
    by (simp only: div_mult_self2)
qed

lemma era_split: "(y::int) div 400 * 146097 + (y - y div 400 * 400) * 365 + (y - y div 400 * 400) div 4 - (y - y div 400 * 400) div 100 = daysBeforeYear y"
  unfolding daysBeforeYear_def div_shift by simp

lemma div_step:
  fixes y k :: int
  assumes "0 < k"
  shows "(y + 1) div k = y div k + (if (y + 1) mod k = 0 then 1 else 0)"
proof (cases "y mod k + 1 = k")
  case True
  have "y + 1 = k * (y div k + 1) + 0"
    using True by (simp add: algebra_simps) (metis add.commute mult_div_mod_eq add.assoc)
  from int_div_pos_eq [OF this] int_mod_pos_eq [OF this] assms show ?thesis
    by simp
next
  case False
  have r: "0 \<le> y mod k + 1" "y mod k + 1 < k"
    using assms False pos_mod_bound [of k y] pos_mod_sign [of k y] by linarith+
  have "y + 1 = k * (y div k) + (y mod k + 1)"
    by simp
  moreover have nz: "y mod k + 1 \<noteq> 0"
    using pos_mod_sign [of k y] assms by linarith
  ultimately show ?thesis
    using int_div_pos_eq [OF _ r, of "y + 1" "y div k"] int_mod_pos_eq [OF _ r, of "y + 1" "y div k"]
    by simp
qed

lemma mod_chain:
  fixes a :: int
  shows "a mod 100 = 0 \<Longrightarrow> a mod 4 = 0" "a mod 400 = 0 \<Longrightarrow> a mod 100 = 0"
  using mod_mod_cancel [of 4 100 a] mod_mod_cancel [of 100 400 a] by simp_all

lemma leap_count:
  fixes A B C :: int
  assumes "b \<longrightarrow> a" "c \<longrightarrow> b"
  shows "365 * (y + 1) + (A + (if a then 1 else 0)) - (B + (if b then 1 else 0)) + (C + (if c then 1 else 0))
         = 365 * y + A - B + C + 365 + (if a \<and> (\<not> b \<or> c) then 1 else 0)"
  using assms by (cases a; cases b; cases c) simp_all

lemma year_step:
  "daysBeforeYear (y + 1) = daysBeforeYear y + 365 + (if (y + 1) mod 4 = 0 \<and> ((y + 1) mod 100 \<noteq> 0 \<or> (y + 1) mod 400 = 0) then 1 else 0)"
proof -
  have d: "(y + 1) div 4 = y div 4 + (if (y + 1) mod 4 = 0 then 1 else 0)"
    "(y + 1) div 100 = y div 100 + (if (y + 1) mod 100 = 0 then 1 else 0)"
    "(y + 1) div 400 = y div 400 + (if (y + 1) mod 400 = 0 then 1 else 0)"
    by (rule div_step, simp)+
  have i: "(y + 1) mod 100 = 0 \<longrightarrow> (y + 1) mod 4 = 0" "(y + 1) mod 400 = 0 \<longrightarrow> (y + 1) mod 100 = 0"
    using mod_chain [of "y + 1"] by blast+
  show ?thesis
    unfolding daysBeforeYear_def d by (rule leap_count [OF i])
qed

lemma year_mono_nat: "daysBeforeYear y + 365 * int k \<le> daysBeforeYear (y + int k)"
proof (induction k)
  case 0
  show ?case by simp
next
  case (Suc k)
  have "daysBeforeYear (y + int k) + 365 \<le> daysBeforeYear (y + int k + 1)"
    unfolding year_step by (simp del: One_nat_def)
  with Suc show ?case by (simp add: algebra_simps)
qed

lemma year_mono: "y \<le> y' \<Longrightarrow> daysBeforeYear y + 365 * (y' - y) \<le> daysBeforeYear y'"
  using year_mono_nat [of y "nat (y' - y)"] by simp

lemma daysFromCivil_alt:
  "daysFromCivil y m d =
     daysBeforeYear (if m \<le> 2 then y - 1 else y)
     + (153 * (if m > 2 then m - 3 else m + 9) + 2) div 5 + d - 1 - 719468"
  unfolding daysFromCivil_def Let_def era_split [symmetric] by simp

lemma isLeapYear_int:
  "isLeapYear y = (int y mod 4 = 0 \<and> (int y mod 100 \<noteq> 0 \<or> int y mod 400 = 0))"
proof -
  have "int y mod 4 = int (y mod 4)" "int y mod 100 = int (y mod 100)" "int y mod 400 = int (y mod 400)"
    by (simp_all add: of_nat_mod)
  then show ?thesis
    by (simp add: isLeapYear_def)
qed

lemma leap_year_days:
  "daysBeforeYear (int y) = daysBeforeYear (int y - 1) + 365 + (if isLeapYear y then 1 else 0)"
  using year_step [of "int y - 1"] by (simp add: isLeapYear_int)

lemma monthStart_table:
  "monthStart 1 = 306" "monthStart 2 = 337" "monthStart 3 = 0" "monthStart 4 = 31"
  "monthStart 5 = 61" "monthStart 6 = 92" "monthStart 7 = 122" "monthStart 8 = 153"
  "monthStart 9 = 184" "monthStart 10 = 214" "monthStart 11 = 245" "monthStart 12 = 275"
  by (simp_all add: monthStart_def)

lemma month_range: "1 \<le> m \<Longrightarrow> m \<le> 12 \<Longrightarrow> m \<in> {1, 2, 3, 4, 5, 6, 7, 8, 9, 10, 11, 12::nat}"
  by (simp add: numeral_eq_Suc) arith

lemma monthStart_mono:
  assumes "3 \<le> m" "m \<le> m'"
  shows "monthStart m \<le> monthStart m'"
  using assms unfolding monthStart_def by simp

lemma daysFromCivil_pos:
  "daysFromCivil (int y) (int m) (int d) =
     daysBeforeYear (if m \<le> 2 then int y - 1 else int y) + monthStart (int m) + int d - 1 - 719468"
  unfolding daysFromCivil_alt monthStart_def by simp

lemma month_end:
  assumes "3 \<le> m" "m \<le> 11" "d \<le> daysInMonth y m"
  shows "monthStart (int m) + int d \<le> monthStart (int m + 1)"
proof -
  from assms have "m \<in> {3, 4, 5, 6, 7, 8, 9, 10, 11}"
    using month_range [of m] by auto
  then show ?thesis
    using assms(3) by (elim insertE emptyE) (simp_all add: monthStart_table daysInMonth_def)
qed

lemma same_year:
  fixes y m d m' d' :: nat
  assumes "1 \<le> m" "m < m'" "m' \<le> 12" "d \<le> daysInMonth y m" "1 \<le> d'"
  shows "daysFromCivil (int y) (int m) (int d) < daysFromCivil (int y) (int m') (int d')"
proof -
  consider "m = 1" "m' = 2" | "m \<le> 2" "3 \<le> m'" | "3 \<le> m"
    using assms by linarith
  then show ?thesis
  proof cases
    case 1
    with assms show ?thesis
      unfolding daysFromCivil_pos by (simp add: monthStart_table daysInMonth_def)
  next
    case 2
    have "monthStart (int m) + int d \<le> 365 + (if isLeapYear y then 1 else 0)"
      using assms 2 month_range [of m] by (auto simp: monthStart_table daysInMonth_def)
    moreover have "0 \<le> monthStart (int m')"
      using monthStart_mono [of 3 "int m'"] 2 by (simp add: monthStart_table)
    ultimately show ?thesis
      using 2 assms(5) leap_year_days [of y] unfolding daysFromCivil_pos by simp
  next
    case 3
    with assms have "monthStart (int m) + int d \<le> monthStart (int m + 1)"
      by (intro month_end) simp_all
    also have "\<dots> \<le> monthStart (int m')"
      using 3 assms by (intro monthStart_mono) simp_all
    finally show ?thesis
      using 3 assms unfolding daysFromCivil_pos by simp
  qed
qed

lemma year_upper:
  fixes y m d :: nat
  assumes "1 \<le> m" "m \<le> 12" "d \<le> daysInMonth y m"
  shows "daysFromCivil (int y) (int m) (int d) \<le> daysBeforeYear (int y) + 305 - 719468"
proof -
  consider "m \<le> 2" | "3 \<le> m" "m \<le> 11" | "m = 12"
    using assms by linarith
  then show ?thesis
  proof cases
    case 1
    have "monthStart (int m) + int d \<le> 365 + (if isLeapYear y then 1 else 0)"
      using assms 1 month_range [of m] by (auto simp: monthStart_table daysInMonth_def)
    then show ?thesis
      using 1 leap_year_days [of y] unfolding daysFromCivil_pos by simp
  next
    case 2
    with assms have "monthStart (int m) + int d \<le> monthStart (int m + 1)"
      by (intro month_end) simp_all
    also have "\<dots> \<le> monthStart 12"
      using 2 by (intro monthStart_mono) simp_all
    finally show ?thesis
      using 2 unfolding daysFromCivil_pos by (simp add: monthStart_table)
  next
    case 3
    with assms show ?thesis
      unfolding daysFromCivil_pos by (simp add: monthStart_table daysInMonth_def)
  qed
qed

lemma year_lower:
  fixes y m d :: nat
  assumes "1 \<le> m" "m \<le> 12" "1 \<le> d"
  shows "daysBeforeYear (int y - 1) + 306 - 719468 \<le> daysFromCivil (int y) (int m) (int d)"
proof (cases "m \<le> 2")
  case True
  with assms have "306 \<le> monthStart (int m)"
    using month_range [of m] by (auto simp: monthStart_table)
  with True assms show ?thesis
    unfolding daysFromCivil_pos by simp
next
  case False
  then have "0 \<le> monthStart (int m)"
    using monthStart_mono [of 3 "int m"] by (simp add: monthStart_table)
  with False assms leap_year_days [of y] show ?thesis
    unfolding daysFromCivil_pos by simp
qed

lemma civil_less:
  fixes y m d y' m' d' :: nat
  assumes "1 \<le> m" "m \<le> 12" "d \<le> daysInMonth y m"
    and "1 \<le> m'" "m' \<le> 12" "1 \<le> d'"
    and "y < y' \<or> y = y' \<and> (m < m' \<or> m = m' \<and> d < d')"
  shows "daysFromCivil (int y) (int m) (int d) < daysFromCivil (int y') (int m') (int d')"
proof -
  consider "y < y'" | "y = y'" "m < m'" | "y = y'" "m = m'" "d < d'"
    using assms(7) by blast
  then show ?thesis
  proof cases
    case 1
    then have "daysBeforeYear (int y) \<le> daysBeforeYear (int y' - 1)"
      using year_mono [of "int y" "int y' - 1"] by simp
    with year_upper [OF assms(1-3)] year_lower [OF assms(4-6), of y'] show ?thesis
      by linarith
  next
    case 2
    with assms show ?thesis
      by (simp add: same_year)
  next
    case 3
    then show ?thesis
      unfolding daysFromCivil_pos by simp
  qed
qed

lemma epochMs_less:
  fixes D D' h h' mi mi' se se' ms ms' :: int
  assumes "0 \<le> h" "h \<le> 23" "0 \<le> mi" "mi \<le> 59" "0 \<le> se" "se \<le> 59" "0 \<le> ms" "ms \<le> 999"
    and "0 \<le> h'" "0 \<le> mi'" "0 \<le> se'" "0 \<le> ms'"
    and "D < D' \<or> D = D' \<and> (h < h' \<or> h = h' \<and> (mi < mi' \<or> mi = mi' \<and> (se < se' \<or> se = se' \<and> ms < ms')))"
  shows "(((D * 24 + h) * 60 + mi) * 60 + se) * 1000 + ms < (((D' * 24 + h') * 60 + mi') * 60 + se') * 1000 + ms'"
  using assms by (elim disjE conjE) simp_all

subsection \<open>Digit strings and their order\<close>

lemma lex_append:
  fixes x y :: "'a::linorder list"
  shows "length x = length y \<Longrightarrow> (x @ r < y @ r') = (x < y \<or> x = y \<and> r < r')"
  by (induction x y rule: list_induct2) auto

lemma digits_foldl:
  "foldl (\<lambda>n c. 10 * n + (of_char c - 48)) a cs
     = a * 10 ^ length cs + foldl (\<lambda>n c. 10 * n + (of_char c - 48)) (0::nat) cs"
proof (induction cs arbitrary: a)
  case Nil
  show ?case by simp
next
  case (Cons c cs)
  let ?f = "\<lambda>n c. 10 * n + (of_char c - 48) :: nat"
  have "foldl ?f a (c # cs) = foldl ?f (10 * a + (of_char c - 48)) cs"
    by simp
  also have "\<dots> = (10 * a + (of_char c - 48)) * 10 ^ length cs + foldl ?f 0 cs"
    by (rule Cons.IH)
  also have "\<dots> = a * 10 ^ length (c # cs) + ((of_char c - 48) * 10 ^ length cs + foldl ?f 0 cs)"
    by (simp add: algebra_simps)
  also have "(of_char c - 48) * 10 ^ length cs + foldl ?f 0 cs = foldl ?f (of_char c - 48) cs"
    by (rule Cons.IH [symmetric])
  also have "foldl ?f (of_char c - 48) cs = foldl ?f 0 (c # cs)"
    by simp
  finally show ?case .
qed

lemma digitsValue_Cons:
  "digitsValue (c # cs) = (of_char c - 48) * 10 ^ length cs + digitsValue cs"
  unfolding digitsValue_def using digits_foldl [of "of_char c - 48" cs] by simp

lemma digit_value:
  assumes "isDigit c"
  shows "(of_char c :: nat) - 48 \<le> 9" "48 \<le> (of_char c :: nat)"
  using assms by (auto simp: isDigit_def less_eq_char_def)

lemma digitsValue_less: "list_all isDigit cs \<Longrightarrow> digitsValue cs < 10 ^ length cs"
proof (induction cs)
  case Nil
  show ?case by (simp add: digitsValue_def)
next
  case (Cons c cs)
  then have "digitsValue cs < 10 ^ length cs" "(of_char c :: nat) - 48 \<le> 9"
    by (simp_all add: digit_value)
  then have "(of_char c - 48) * 10 ^ length cs + digitsValue cs < 9 * 10 ^ length cs + 10 ^ length cs"
    by (intro add_le_less_mono mult_le_mono1)
  then show ?case
    by (simp add: digitsValue_Cons)
qed

lemma radix_less:
  fixes a a' u u' N :: nat
  assumes "a < a'" "u < N"
  shows "a * N + u < a' * N + u'"
proof -
  have "a * N + u < (a + 1) * N" using assms by simp
  also have "\<dots> \<le> a' * N" using assms by (intro mult_le_mono1) simp
  finally show ?thesis by simp
qed

lemma lex_radix:
  fixes d d' v v' N :: nat
  assumes "v < N" "v' < N"
  shows "(d * N + v < d' * N + v') = (d < d' \<or> d = d' \<and> v < v')"
    and "(d * N + v = d' * N + v') = (d = d' \<and> v = v')"
proof -
  consider "d < d'" | "d = d'" | "d' < d" by linarith
  then show "(d * N + v < d' * N + v') = (d < d' \<or> d = d' \<and> v < v')"
  proof cases
    case 1
    with radix_less [OF 1 assms(1), of v'] show ?thesis by simp
  next
    case 2
    then show ?thesis by simp
  next
    case 3
    with radix_less [OF 3 assms(2), of v] show ?thesis by simp
  qed
  consider "d < d'" | "d = d'" | "d' < d" by linarith
  then show "(d * N + v = d' * N + v') = (d = d' \<and> v = v')"
  proof cases
    case 1
    with radix_less [OF 1 assms(1), of v'] show ?thesis by simp
  next
    case 2
    then show ?thesis by simp
  next
    case 3
    with radix_less [OF 3 assms(2), of v] show ?thesis by simp
  qed
qed

lemma digits_order:
  assumes "length x = length y" "list_all isDigit x" "list_all isDigit y"
  shows "(x < y) = (digitsValue x < digitsValue y) \<and> (x = y) = (digitsValue x = digitsValue y)"
  using assms
proof (induction x y rule: list_induct2)
  case Nil
  show ?case by simp
next
  case (Cons c cs c' cs')
  let ?N = "10 ^ length cs :: nat"
  from Cons have ih: "(cs < cs') = (digitsValue cs < digitsValue cs')"
    "(cs = cs') = (digitsValue cs = digitsValue cs')"
    by simp_all
  from Cons have b: "digitsValue cs < ?N" "digitsValue cs' < ?N"
    using digitsValue_less [of cs] digitsValue_less [of cs'] by simp_all
  from Cons.prems have d: "48 \<le> (of_char c :: nat)" "48 \<le> (of_char c' :: nat)"
    by (simp_all add: digit_value)
  have "(of_char c :: nat) = of_char c'" if "(of_char c :: nat) - 48 = of_char c' - 48"
    using that d by linarith
  then have c: "(c < c') = ((of_char c :: nat) - 48 < of_char c' - 48)"
    "(c = c') = ((of_char c :: nat) - 48 = of_char c' - 48)"
    using d by (auto simp: less_char_def)
  have l: "(digitsValue (c # cs) < digitsValue (c' # cs')) = (c < c' \<or> c = c' \<and> cs < cs')"
    unfolding digitsValue_Cons Cons.hyps [symmetric] lex_radix [OF b] c ih ..
  have e: "(digitsValue (c # cs) = digitsValue (c' # cs')) = (c = c' \<and> cs = cs')"
    unfolding digitsValue_Cons Cons.hyps [symmetric] lex_radix [OF b] c ih ..
  from l e show ?case
    by simp
qed

subsection \<open>The fields of a timestamp\<close>

lemma length24:
  assumes "length s = 24"
  obtains c0 c1 c2 c3 c4 c5 c6 c7 c8 c9 c10 c11 c12 c13 c14 c15 c16 c17 c18 c19 c20 c21 c22 c23
  where "s = [c0, c1, c2, c3, c4, c5, c6, c7, c8, c9, c10, c11, c12, c13, c14, c15, c16, c17,
              c18, c19, c20, c21, c22, c23]"
  using assms by (auto simp: numeral_eq_Suc length_Suc_conv)

lemma iso_shape:
  assumes "isoTimestamp s"
  obtains Y M D h mi se f where
    "s = Y @ CHR ''-'' # M @ CHR ''-'' # D @ CHR ''T'' # h @ CHR '':'' # mi @ CHR '':'' # se @ CHR ''.'' # f @ ''Z''"
    "length Y = 4" "length M = 2" "length D = 2" "length h = 2" "length mi = 2" "length se = 2"
    "length f = 3"
    "list_all isDigit Y" "list_all isDigit M" "list_all isDigit D" "list_all isDigit h"
    "list_all isDigit mi" "list_all isDigit se" "list_all isDigit f"
    "1 \<le> digitsValue M" "digitsValue M \<le> 12" "1 \<le> digitsValue D"
    "digitsValue D \<le> daysInMonth (digitsValue Y) (digitsValue M)"
    "digitsValue h \<le> 23" "digitsValue mi \<le> 59" "digitsValue se \<le> 59"
    "isoDateParse s = Some (epochMs (int (digitsValue Y)) (int (digitsValue M)) (int (digitsValue D))
        (int (digitsValue h)) (int (digitsValue mi)) (int (digitsValue se)) (int (digitsValue f)))"
proof -
  from assms have len: "length s = 24" and p: "isoDateParse s \<noteq> None"
    by (simp_all add: isoTimestamp_def)
  from len obtain c0 c1 c2 c3 c4 c5 c6 c7 c8 c9 c10 c11 c12 c13 c14 c15 c16 c17 c18 c19 c20 c21 c22 c23
    where s: "s = [c0, c1, c2, c3, c4, c5, c6, c7, c8, c9, c10, c11, c12, c13, c14, c15, c16, c17,
              c18, c19, c20, c21, c22, c23]"
    by (rule length24)
  have fr: "fractionMs [a, b1, b2, b3, z] =
      (if a = CHR ''.'' \<and> z = CHR ''Z'' \<and> list_all isDigit [b1, b2, b3]
       then Some (digitsValue [b1, b2, b3]) else None)" for a b1 b2 b3 z
    by (simp add: fractionMs_def)
  from p have c: "c4 = CHR ''-''" "c7 = CHR ''-''" "c10 = CHR ''T''" "c13 = CHR '':''" "c16 = CHR '':''"
    "c19 = CHR ''.''" "c23 = CHR ''Z''"
    "list_all isDigit [c0, c1, c2, c3]" "list_all isDigit [c5, c6]" "list_all isDigit [c8, c9]"
    "list_all isDigit [c11, c12]" "list_all isDigit [c14, c15]" "list_all isDigit [c17, c18]"
    "list_all isDigit [c20, c21, c22]"
    "1 \<le> digitsValue [c5, c6]" "digitsValue [c5, c6] \<le> 12" "1 \<le> digitsValue [c8, c9]"
    "digitsValue [c8, c9] \<le> daysInMonth (digitsValue [c0, c1, c2, c3]) (digitsValue [c5, c6])"
    "digitsValue [c11, c12] \<le> 23" "digitsValue [c14, c15] \<le> 59" "digitsValue [c17, c18] \<le> 59"
    unfolding s isoDateParse_def Let_def by (simp_all add: fr split: if_splits)
  have v: "isoDateParse s = Some (epochMs (int (digitsValue [c0, c1, c2, c3])) (int (digitsValue [c5, c6]))
        (int (digitsValue [c8, c9])) (int (digitsValue [c11, c12])) (int (digitsValue [c14, c15]))
        (int (digitsValue [c17, c18])) (int (digitsValue [c20, c21, c22])))"
    using c unfolding s isoDateParse_def Let_def by (simp add: fr)
  show thesis
    by (rule that [of "[c0, c1, c2, c3]" "[c5, c6]" "[c8, c9]" "[c11, c12]" "[c14, c15]" "[c17, c18]"
          "[c20, c21, c22]"])
       (use c v in \<open>simp_all add: s\<close>)
qed

lemma iso_less:
  assumes "isoTimestamp a" "isoTimestamp b" "a < b"
  shows "\<exists>ta tb. isoDateParse a = Some ta \<and> isoDateParse b = Some tb \<and> ta < tb"
proof -
  from assms(1) obtain Y M D h mi se f where
    a: "a = Y @ CHR ''-'' # M @ CHR ''-'' # D @ CHR ''T'' # h @ CHR '':'' # mi @ CHR '':'' # se @ CHR ''.'' # f @ ''Z''"
    and la: "length Y = 4" "length M = 2" "length D = 2" "length h = 2" "length mi = 2" "length se = 2"
    "length f = 3"
    and da: "list_all isDigit Y" "list_all isDigit M" "list_all isDigit D" "list_all isDigit h"
    "list_all isDigit mi" "list_all isDigit se" "list_all isDigit f"
    and ra: "1 \<le> digitsValue M" "digitsValue M \<le> 12" "1 \<le> digitsValue D"
    "digitsValue D \<le> daysInMonth (digitsValue Y) (digitsValue M)"
    "digitsValue h \<le> 23" "digitsValue mi \<le> 59" "digitsValue se \<le> 59"
    and ta: "isoDateParse a = Some (epochMs (int (digitsValue Y)) (int (digitsValue M)) (int (digitsValue D))
        (int (digitsValue h)) (int (digitsValue mi)) (int (digitsValue se)) (int (digitsValue f)))"
    by (rule iso_shape)
  from assms(2) obtain Y' M' D' h' mi' se' f' where
    b: "b = Y' @ CHR ''-'' # M' @ CHR ''-'' # D' @ CHR ''T'' # h' @ CHR '':'' # mi' @ CHR '':'' # se' @ CHR ''.'' # f' @ ''Z''"
    and lb: "length Y' = 4" "length M' = 2" "length D' = 2" "length h' = 2" "length mi' = 2" "length se' = 2"
    "length f' = 3"
    and db: "list_all isDigit Y'" "list_all isDigit M'" "list_all isDigit D'" "list_all isDigit h'"
    "list_all isDigit mi'" "list_all isDigit se'" "list_all isDigit f'"
    and rb: "1 \<le> digitsValue M'" "digitsValue M' \<le> 12" "1 \<le> digitsValue D'"
    "digitsValue D' \<le> daysInMonth (digitsValue Y') (digitsValue M')"
    "digitsValue h' \<le> 23" "digitsValue mi' \<le> 59" "digitsValue se' \<le> 59"
    and tb: "isoDateParse b = Some (epochMs (int (digitsValue Y')) (int (digitsValue M')) (int (digitsValue D'))
        (int (digitsValue h')) (int (digitsValue mi')) (int (digitsValue se')) (int (digitsValue f')))"
    by (rule iso_shape)
  have len: "length Y = length Y'" "length M = length M'" "length D = length D'" "length h = length h'"
    "length mi = length mi'" "length se = length se'" "length f = length f'"
    using la lb by simp_all
  note o = digits_order [OF len(1) da(1) db(1)] digits_order [OF len(2) da(2) db(2)]
    digits_order [OF len(3) da(3) db(3)] digits_order [OF len(4) da(4) db(4)]
    digits_order [OF len(5) da(5) db(5)] digits_order [OF len(6) da(6) db(6)]
    digits_order [OF len(7) da(7) db(7)]
  let ?y = "digitsValue Y" and ?m = "digitsValue M" and ?d = "digitsValue D" and ?h = "digitsValue h"
    and ?mi = "digitsValue mi" and ?se = "digitsValue se" and ?f = "digitsValue f"
  let ?y' = "digitsValue Y'" and ?m' = "digitsValue M'" and ?d' = "digitsValue D'" and ?h' = "digitsValue h'"
    and ?mi' = "digitsValue mi'" and ?se' = "digitsValue se'" and ?f' = "digitsValue f'"
  have "Y < Y' \<or> Y = Y' \<and> (M < M' \<or> M = M' \<and> (D < D' \<or> D = D' \<and> (h < h' \<or> h = h' \<and>
          (mi < mi' \<or> mi = mi' \<and> (se < se' \<or> se = se' \<and> f < f')))))"
    using assms(3) unfolding a b
    by (simp only: lex_append [OF len(1)] lex_append [OF len(2)] lex_append [OF len(3)]
        lex_append [OF len(4)] lex_append [OF len(5)] lex_append [OF len(6)] lex_append [OF len(7)]
        Cons_less_Cons less_irrefl simp_thms)
  then have lex: "?y < ?y' \<or> ?y = ?y' \<and> (?m < ?m' \<or> ?m = ?m' \<and> (?d < ?d' \<or> ?d = ?d' \<and> (?h < ?h' \<or> ?h = ?h' \<and>
          (?mi < ?mi' \<or> ?mi = ?mi' \<and> (?se < ?se' \<or> ?se = ?se' \<and> ?f < ?f')))))"
    using o by simp
  have fa: "?f \<le> 999"
    using digitsValue_less [OF da(7)] la(7) by simp
  let ?Da = "daysFromCivil (int ?y) (int ?m) (int ?d)" and ?Db = "daysFromCivil (int ?y') (int ?m') (int ?d')"
  have days: "?Da < ?Db" if "?y < ?y' \<or> ?y = ?y' \<and> (?m < ?m' \<or> ?m = ?m' \<and> ?d < ?d')"
    using ra(1,2,4) rb(1,2,3) that by (rule civil_less)
  have "?Da < ?Db \<or> ?Da = ?Db \<and> (int ?h < int ?h' \<or> int ?h = int ?h' \<and>
          (int ?mi < int ?mi' \<or> int ?mi = int ?mi' \<and> (int ?se < int ?se' \<or> int ?se = int ?se' \<and> int ?f < int ?f')))"
    using lex days by auto
  then have "epochMs (int ?y) (int ?m) (int ?d) (int ?h) (int ?mi) (int ?se) (int ?f)
      < epochMs (int ?y') (int ?m') (int ?d') (int ?h') (int ?mi') (int ?se') (int ?f')"
    unfolding epochMs_def using ra(5-7) fa by (intro epochMs_less) simp_all
  with ta tb show ?thesis
    by simp
qed

lemma iso_order:
  assumes "isoTimestamp a" "isoTimestamp b" "isoDateParse a = Some ta" "isoDateParse b = Some tb"
  shows "(a \<le> b) = (ta \<le> tb)"
proof -
  consider "a < b" | "a = b" | "b < a"
    by fastforce
  then show ?thesis
  proof cases
    case 1
    with iso_less [OF assms(1,2)] assms(3,4) show ?thesis by auto
  next
    case 2
    with assms(3,4) show ?thesis by simp
  next
    case 3
    with iso_less [OF assms(2,1)] assms(3,4) show ?thesis by auto
  qed
qed

section \<open>The matrix computes the Levenshtein distance\<close>

lemma levenshtein_Nil2 [simp]: "levenshtein xs [] = length xs"
  by (cases xs) simp_all

lemma levenshtein_sym: "levenshtein xs ys = levenshtein ys xs"
  by (induction xs ys rule: levenshtein.induct) (auto simp: min.commute)

lemma levenshtein_same [simp]: "levenshtein xs xs = 0"
  by (induction xs) simp_all

lemma levenshtein_le_max: "levenshtein xs ys \<le> max (length xs) (length ys)"
  by (induction xs ys rule: levenshtein.induct) (auto simp: min_le_iff_disj)

lemmas min_norm = min_add_distrib_left min_add_distrib_right min.assoc min.commute min.left_commute

lemma levenshtein_single_snoc:
  "levenshtein [x] (ys @ [y]) =
     min (min (length ys + 2) (levenshtein [x] ys + 1)) (length ys + (if x = y then 0 else 1))"
proof (induction ys)
  case Nil
  show ?case by simp
next
  case (Cons b ys)
  show ?case
    using Cons.IH by (simp add: min_norm)
qed

lemma levenshtein_snoc_single:
  "levenshtein (xs @ [x]) [y] =
     min (min (levenshtein xs [y] + 1) (length xs + 2)) (length xs + (if x = y then 0 else 1))"
proof -
  have "levenshtein (xs @ [x]) [y] = levenshtein [y] (xs @ [x])"
    by (rule levenshtein_sym)
  also have "\<dots> = min (min (length xs + 2) (levenshtein [y] xs + 1))
                      (length xs + (if y = x then 0 else 1))"
    by (rule levenshtein_single_snoc)
  also have "\<dots> = min (min (levenshtein xs [y] + 1) (length xs + 2))
                      (length xs + (if x = y then 0 else 1))"
    by (simp add: levenshtein_sym [of "[y]" xs] min.commute eq_commute [of y x])
  finally show ?thesis .
qed

lemma min9:
  fixes p q r s t u v w z d e :: nat
  shows "min (min (min (min (p + 1) (q + 1)) (r + e) + 1) (min (min (s + 1) (t + 1)) (u + e) + 1))
             (min (min (v + 1) (w + 1)) (z + e) + d)
       = min (min (min (min (p + 1) (s + 1)) (v + d) + 1) (min (min (q + 1) (t + 1)) (w + d) + 1))
             (min (min (r + 1) (u + 1)) (z + d) + e)"
  by (simp only: min_add_distrib_left min_add_distrib_right min.assoc min.commute min.left_commute
        add.assoc add.commute add.left_commute)

lemma levenshtein_snoc:
  "levenshtein (xs @ [x]) (ys @ [y]) =
     min (min (levenshtein xs (ys @ [y]) + 1) (levenshtein (xs @ [x]) ys + 1))
         (levenshtein xs ys + (if x = y then 0 else 1))"
proof (induction xs ys rule: levenshtein.induct)
  case (1 ys)
  have "length (ys @ [y]) + 1 = length ys + 2"
    by simp
  then show ?case
    by (simp only: append_Nil levenshtein.simps(1) levenshtein_single_snoc)
next
  case (2 a xs)
  have "length ((a # xs) @ [x]) + 1 = length (a # xs) + 2"
    by simp
  then show ?case
    by (simp only: append_Nil levenshtein_Nil2 levenshtein_snoc_single)
next
  case (3 a xs b ys)
  have IH1: "levenshtein (xs @ [x]) (b # (ys @ [y])) =
      min (min (levenshtein xs (b # (ys @ [y])) + 1) (levenshtein (xs @ [x]) (b # ys) + 1))
         (levenshtein xs (b # ys) + (if x = y then 0 else 1))"
    using "3.IH"(1) by (simp only: append_Cons)
  have IH2: "levenshtein (a # (xs @ [x])) (ys @ [y]) =
      min (min (levenshtein (a # xs) (ys @ [y]) + 1) (levenshtein (a # (xs @ [x])) ys + 1))
         (levenshtein (a # xs) ys + (if x = y then 0 else 1))"
    using "3.IH"(2) by (simp only: append_Cons)
  note IH3 = "3.IH"(3)
  show ?case
    apply (simp only: append_Cons levenshtein.simps(3))
    apply (subst IH1)
    apply (subst IH2)
    apply (subst IH3)
    apply (rule min9)
    done
qed

lemma setCell_nth:
  "j < length m \<Longrightarrow> i < length (m ! j) \<Longrightarrow>
   setCell m j i v ! j' ! i' = (if j' = j \<and> i' = i then v else m ! j' ! i')"
  by (cases "j' = j"; cases "i' = i") (simp_all add: setCell_def)

lemma setCell_wf:
  "wfMatrix n1 n2 m \<Longrightarrow> wfMatrix n1 n2 (setCell m j i v)"
  by (cases "j < length m") (auto simp: wfMatrix_def setCell_def nth_list_update)

lemma newMatrix_wf: "wfMatrix n1 n2 (newMatrix (n2 + 1) (n1 + 1))"
proof -
  have "replicate (n2 + 1) (replicate (n1 + 1) (0::nat)) ! j = replicate (n1 + 1) 0" if "j \<le> n2" for j
    using that by (intro nth_replicate) simp
  then show ?thesis
    by (simp add: wfMatrix_def newMatrix_def del: replicate_Suc replicate.simps)
qed

lemma firstRow_loop:
  "wfMatrix n1 n2 m \<Longrightarrow> k \<le> Suc n1 \<Longrightarrow>
   wfMatrix n1 n2 (foldl (\<lambda>m i. setCell m 0 i i) m [0..<k]) \<and>
   (\<forall>i < k. foldl (\<lambda>m i. setCell m 0 i i) m [0..<k] ! 0 ! i = i)"
proof (induction k)
  case 0
  then show ?case by simp
next
  case (Suc k)
  let ?m = "foldl (\<lambda>m i. setCell m 0 i i) m [0..<k]"
  from Suc have wf: "wfMatrix n1 n2 ?m" and old: "\<forall>i < k. ?m ! 0 ! i = i" and k: "k \<le> n1"
    by simp_all
  from wf k have len: "0 < length ?m" "k < length (?m ! 0)"
    by (simp_all add: wfMatrix_def)
  show ?case
    using wf old by (auto simp: setCell_wf setCell_nth [OF len] less_Suc_eq)
qed

lemma firstCol_loop:
  "wfMatrix n1 n2 m \<Longrightarrow> k \<le> Suc n2 \<Longrightarrow>
   wfMatrix n1 n2 (foldl (\<lambda>m j. setCell m j 0 j) m [0..<k]) \<and>
   (\<forall>j < k. foldl (\<lambda>m j. setCell m j 0 j) m [0..<k] ! j ! 0 = j) \<and>
   (\<forall>j i. i \<noteq> 0 \<longrightarrow> foldl (\<lambda>m j. setCell m j 0 j) m [0..<k] ! j ! i = m ! j ! i)"
proof (induction k)
  case 0
  then show ?case by simp
next
  case (Suc k)
  let ?m = "foldl (\<lambda>m j. setCell m j 0 j) m [0..<k]"
  from Suc have wf: "wfMatrix n1 n2 ?m" and old: "\<forall>j < k. ?m ! j ! 0 = j"
    and same: "\<forall>j i. i \<noteq> 0 \<longrightarrow> ?m ! j ! i = m ! j ! i" and k: "k \<le> n2"
    by simp_all
  from wf k have len: "k < length ?m" "0 < length (?m ! k)"
    by (simp_all add: wfMatrix_def)
  show ?case
    using wf old same by (auto simp: setCell_wf setCell_nth [OF len] less_Suc_eq)
qed

lemma prefixDistance_0:
  "prefixDistance s1 s2 0 j = min j (length s2)" "prefixDistance s1 s2 i 0 = min i (length s1)"
  by (simp_all add: prefixDistance_def min.commute)

lemma init_filled:
  "filledUpTo s1 s2
     (initFirstCol (length s2) (initFirstRow (length s1)
        (newMatrix (length s2 + 1) (length s1 + 1)))) 1 1"
proof -
  let ?m0 = "newMatrix (length s2 + 1) (length s1 + 1)"
  let ?m1 = "initFirstRow (length s1) ?m0"
  let ?m2 = "initFirstCol (length s2) ?m1"
  have r: "wfMatrix (length s1) (length s2) ?m1" "\<forall>i < Suc (length s1). ?m1 ! 0 ! i = i"
    using firstRow_loop [OF newMatrix_wf, of "Suc (length s1)" "length s1" "length s2"]
    by (simp_all add: initFirstRow_def)
  have c: "wfMatrix (length s1) (length s2) ?m2" "\<forall>j < Suc (length s2). ?m2 ! j ! 0 = j"
    "\<forall>j i. i \<noteq> 0 \<longrightarrow> ?m2 ! j ! i = ?m1 ! j ! i"
    using firstCol_loop [OF r(1), of "Suc (length s2)"]
    by (simp_all add: initFirstCol_def)
  show ?thesis
    unfolding filledUpTo_def
  proof (intro conjI allI impI)
    show "wfMatrix (length s1) (length s2) ?m2" by (rule c(1))
  next
    fix j' i
    assume j': "j' \<le> length s2" and i: "i \<le> length s1"
      and h: "j' < 1 \<or> i = 0 \<or> j' = 1 \<and> i < 1"
    show "?m2 ! j' ! i = prefixDistance s1 s2 i j'"
    proof (cases "i = 0")
      case True
      then show ?thesis using c(2) j' by (simp add: prefixDistance_0)
    next
      case False
      with h have "j' = 0" by auto
      then show ?thesis using False c(3) r(2) i by (simp add: prefixDistance_0)
    qed
  qed
qed

lemma prefixDistance_Suc:
  assumes "i < length s1" "j < length s2"
  shows "prefixDistance s1 s2 (Suc i) (Suc j) =
     min (min (prefixDistance s1 s2 i (Suc j) + 1) (prefixDistance s1 s2 (Suc i) j + 1))
         (prefixDistance s1 s2 i j + (if s1 ! i = s2 ! j then 0 else 1))"
  using assms
  by (simp only: prefixDistance_def take_Suc_conv_app_nth levenshtein_snoc)

lemma fillCell_filled:
  assumes inv: "filledUpTo s1 s2 m j k"
    and j: "1 \<le> j" "j \<le> length s2" and k: "1 \<le> k" "k \<le> length s1"
  shows "filledUpTo s1 s2 (fillCell s1 s2 j m k) j (Suc k)"
proof -
  obtain j0 k0 where jk: "j = Suc j0" "k = Suc k0"
    using j(1) k(1) by (cases j; cases k) auto
  from inv have wf: "wfMatrix (length s1) (length s2) m"
    unfolding filledUpTo_def by (rule conjunct1)
  from inv have "\<forall>j' \<le> length s2. \<forall>i \<le> length s1.
         (j' < j \<or> i = 0 \<or> (j' = j \<and> i < k)) \<longrightarrow> m ! j' ! i = prefixDistance s1 s2 i j'"
    unfolding filledUpTo_def by (rule conjunct2)
  then have cells: "\<And>j' i. j' \<le> length s2 \<Longrightarrow> i \<le> length s1 \<Longrightarrow>
        j' < j \<or> i = 0 \<or> (j' = j \<and> i < k) \<Longrightarrow> m ! j' ! i = prefixDistance s1 s2 i j'"
    by blast
  from wf j k have len: "j < length m" "k < length (m ! j)"
    by (simp_all add: wfMatrix_def)
  have left: "m ! j ! (k - 1) = prefixDistance s1 s2 k0 (Suc j0)"
    using cells [of j k0] j k jk by simp
  have up: "m ! (j - 1) ! k = prefixDistance s1 s2 (Suc k0) j0"
    using cells [of j0 k] j k jk by simp
  have diag: "m ! (j - 1) ! (k - 1) = prefixDistance s1 s2 k0 j0"
    using cells [of j0 k0] j k jk by simp
  have "fillCell s1 s2 j m k ! j ! k =
      min (min (m ! j ! (k - 1) + 1) (m ! (j - 1) ! k + 1))
          (m ! (j - 1) ! (k - 1) + (if s1 ! (k - 1) = s2 ! (j - 1) then 0 else 1))"
    by (simp add: fillCell_def Let_def setCell_nth [OF len])
  also have "\<dots> =
      min (min (prefixDistance s1 s2 k0 (Suc j0) + 1) (prefixDistance s1 s2 (Suc k0) j0 + 1))
          (prefixDistance s1 s2 k0 j0 + (if s1 ! k0 = s2 ! j0 then 0 else 1))"
    by (simp only: left up diag) (simp add: jk)
  also have "\<dots> = prefixDistance s1 s2 (Suc k0) (Suc j0)"
    using j k jk by (intro prefixDistance_Suc [symmetric]) simp_all
  finally have new: "fillCell s1 s2 j m k ! j ! k = prefixDistance s1 s2 k j"
    by (simp only: jk)
  have other: "fillCell s1 s2 j m k ! j' ! i = m ! j' ! i" if "\<not> (j' = j \<and> i = k)" for j' i
    using that by (auto simp: fillCell_def Let_def setCell_nth [OF len])
  have wf': "wfMatrix (length s1) (length s2) (fillCell s1 s2 j m k)"
    using wf by (simp add: fillCell_def Let_def setCell_wf)
  show ?thesis
    unfolding filledUpTo_def
  proof (intro conjI allI impI)
    show "wfMatrix (length s1) (length s2) (fillCell s1 s2 j m k)" by (rule wf')
  next
    fix j' i
    assume b: "j' \<le> length s2" "i \<le> length s1"
      and h: "j' < j \<or> i = 0 \<or> j' = j \<and> i < Suc k"
    show "fillCell s1 s2 j m k ! j' ! i = prefixDistance s1 s2 i j'"
    proof (cases "j' = j \<and> i = k")
      case True
      then show ?thesis using new by simp
    next
      case False
      with h have "j' < j \<or> i = 0 \<or> j' = j \<and> i < k" by auto
      then show ?thesis using other [OF False] cells [OF b] by simp
    qed
  qed
qed

lemma fillRow_loop:
  assumes inv: "filledUpTo s1 s2 m j 1" and j: "1 \<le> j" "j \<le> length s2"
  shows "k \<le> length s1 \<Longrightarrow> filledUpTo s1 s2 (foldl (fillCell s1 s2 j) m [1..<Suc k]) j (Suc k)"
proof (induction k)
  case 0
  then show ?case using inv by simp
next
  case (Suc k)
  let ?m = "foldl (fillCell s1 s2 j) m [1..<Suc k]"
  have split: "[1..<Suc (Suc k)] = [1..<Suc k] @ [Suc k]"
    by (rule upt_Suc_append) simp
  from Suc have "filledUpTo s1 s2 ?m j (Suc k)"
    by simp
  from fillCell_filled [OF this j] Suc.prems
  have "filledUpTo s1 s2 (fillCell s1 s2 j ?m (Suc k)) j (Suc (Suc k))"
    by simp
  then show ?case
    by (simp only: split foldl_append foldl.simps)
qed

lemma filledUpTo_next_row:
  assumes "filledUpTo s1 s2 m j (Suc (length s1))"
  shows "filledUpTo s1 s2 m (Suc j) 1"
  unfolding filledUpTo_def
proof (intro conjI allI impI)
  show "wfMatrix (length s1) (length s2) m"
    using assms by (simp add: filledUpTo_def)
next
  fix j' i
  assume b: "j' \<le> length s2" "i \<le> length s1"
    and h: "j' < Suc j \<or> i = 0 \<or> j' = Suc j \<and> i < 1"
  from h b have h': "j' < j \<or> i = 0 \<or> j' = j \<and> i < Suc (length s1)"
    by auto
  from assms have "\<forall>j' \<le> length s2. \<forall>i \<le> length s1.
         (j' < j \<or> i = 0 \<or> (j' = j \<and> i < Suc (length s1))) \<longrightarrow>
         m ! j' ! i = prefixDistance s1 s2 i j'"
    unfolding filledUpTo_def by (rule conjunct2)
  with b h' show "m ! j' ! i = prefixDistance s1 s2 i j'"
    by blast
qed

lemma fillMatrix_loop:
  assumes inv: "filledUpTo s1 s2 m 1 1"
  shows "j \<le> length s2 \<Longrightarrow> filledUpTo s1 s2 (foldl (fillRow s1 s2) m [1..<Suc j]) (Suc j) 1"
proof (induction j)
  case 0
  then show ?case using inv by simp
next
  case (Suc j)
  let ?m = "foldl (fillRow s1 s2) m [1..<Suc j]"
  have split: "[1..<Suc (Suc j)] = [1..<Suc j] @ [Suc j]"
    by (rule upt_Suc_append) simp
  from Suc have "filledUpTo s1 s2 ?m (Suc j) 1"
    by simp
  from fillRow_loop [OF this, of "length s1"] Suc.prems
  have "filledUpTo s1 s2 (fillRow s1 s2 ?m (Suc j)) (Suc j) (Suc (length s1))"
    by (simp add: fillRow_def)
  then have "filledUpTo s1 s2 (fillRow s1 s2 ?m (Suc j)) (Suc (Suc j)) 1"
    by (rule filledUpTo_next_row)
  then show ?case
    by (simp only: split foldl_append foldl.simps)
qed

lemma editMatrix_levenshtein:
  "editMatrix s1 s2 ! length s2 ! length s1 = levenshtein s1 s2"
proof -
  have "filledUpTo s1 s2 (editMatrix s1 s2) (Suc (length s2)) 1"
    unfolding editMatrix_def fillMatrix_def
    by (rule fillMatrix_loop [OF init_filled]) simp
  then have "editMatrix s1 s2 ! length s2 ! length s1 = prefixDistance s1 s2 (length s1) (length s2)"
    by (simp add: filledUpTo_def)
  then show ?thesis
    by (simp add: prefixDistance_def)
qed

lemma stringSimilarity_edit: "stringSimilarity str1 str2 = editSimilarity str1 str2"
proof -
  define s1 where "s1 = trim (toLowerCase str1)"
  define s2 where "s2 = trim (toLowerCase str2)"
  define n where "n = max (length s1) (length s2)"
  consider "s1 = s2" | "s1 \<noteq> s2" "s1 = []" | "s1 \<noteq> s2" "s2 = []" | "s1 \<noteq> s2" "s1 \<noteq> []" "s2 \<noteq> []"
    by blast
  then have "(if s1 = s2 then 1 else if length s1 = 0 \<or> length s2 = 0 then 0
              else (of_nat n - of_nat (editMatrix s1 s2 ! length s2 ! length s1)) / of_nat n)
           = (1 - of_nat (levenshtein s1 s2) / of_nat n :: rat)"
  proof cases
    case 1
    then show ?thesis by simp
  next
    case 2
    then have "s2 \<noteq> []" by auto
    with 2 show ?thesis by (simp add: n_def)
  next
    case 3
    then have "s1 \<noteq> []" by auto
    with 3 show ?thesis by (simp add: n_def)
  next
    case 4
    then have "n \<noteq> 0" by (simp add: n_def)
    with 4 show ?thesis
      by (simp add: editMatrix_levenshtein diff_divide_distrib)
  qed
  then show ?thesis
    unfolding stringSimilarity_def editSimilarity_def Let_def s1_def s2_def n_def .
qed

lemma editSimilarity_sym: "editSimilarity a b = editSimilarity b a"
  by (simp add: editSimilarity_def Let_def levenshtein_sym [of "trim (toLowerCase a)"] max.commute)

lemma ratio_le_1:
  fixes a b :: rat
  assumes "0 \<le> a" "a \<le> b"
  shows "a / b \<le> 1"
proof (cases "b = 0")
  case True
  then show ?thesis by simp
next
  case False
  with assms have "0 < b" by simp
  with assms show ?thesis by (simp add: divide_le_eq_1_pos)
qed

lemma editSimilarity_bounds: "0 \<le> editSimilarity a b \<and> editSimilarity a b \<le> 1"
proof -
  define s1 where "s1 = trim (toLowerCase a)"
  define s2 where "s2 = trim (toLowerCase b)"
  have "(of_nat (levenshtein s1 s2) :: rat) \<le> of_nat (max (length s1) (length s2))"
    using levenshtein_le_max [of s1 s2] by (simp only: of_nat_le_iff)
  then have "(of_nat (levenshtein s1 s2) :: rat) / of_nat (max (length s1) (length s2)) \<le> 1"
    by (intro ratio_le_1) simp_all
  moreover have "0 \<le> (of_nat (levenshtein s1 s2) :: rat) / of_nat (max (length s1) (length s2))"
    by simp
  ultimately show ?thesis
    by (simp add: editSimilarity_def Let_def s1_def s2_def)
qed

lemma dateScore_spec:
  "dateScore dp d1 d2 =
     (if d1 = d2 then 0.3 else if startDatesWithin dp 3 d1 d2 then 0.15 else 0)"
proof -
  have "(of_int \<bar>t1 - t2\<bar> / msPerDay \<le> (3::rat)) = (\<bar>t1 - t2\<bar> \<le> 3 * 86400000)" for t1 t2 :: int
  proof -
    have "(of_int \<bar>t1 - t2\<bar> / msPerDay \<le> (3::rat)) = ((of_int \<bar>t1 - t2\<bar> :: rat) \<le> of_int (3 * 86400000))"
      by (simp add: msPerDay_def divide_le_eq)
    also have "\<dots> = (\<bar>t1 - t2\<bar> \<le> 3 * 86400000)"
      by (simp only: of_int_le_iff)
    finally show ?thesis .
  qed
  then show ?thesis
    by (simp add: dateScore_def startDatesWithin_def Let_def split: option.splits)
qed

lemma dateScore_sym: "dateScore dp d1 d2 = dateScore dp d2 d1"
  by (auto simp: dateScore_def Let_def abs_minus_commute split: option.splits)

lemma dateScore_bounds: "0 \<le> dateScore dp d1 d2 \<and> dateScore dp d1 d2 \<le> 0.3"
  by (simp add: dateScore_spec)

lemma calculateSimilarity_unfold:
  "calculateSimilarity dp a b =
     0.4 * editSimilarity (title a) (title b) + dateScore dp (start_date a) (start_date b)
     + 0.2 * editSimilarity (location a) (location b)
     + (if is_online a = is_online b then 0.1 else 0)"
  by (simp add: calculateSimilarity_def Let_def stringSimilarity_edit)

text \<open>
  Claim C1. For every pair of records the score of \<open>calculateSimilarity\<close> is the weighted
  sum: 0.4 times the edit similarity (1 - Levenshtein distance / max length) of the lowercased,
  trimmed titles, plus 0.3 for equal start dates (0.15 when they differ by at most 3 days,
  else 0), plus 0.2 times the edit similarity of the locations, plus 0.1 when the online
  flags agree. The score lies in [0, 1], and \<open>isDuplicate\<close> holds exactly when the
  score reaches the threshold, which is 0.85 when omitted.
\<close>

theorem similarity_weighted_sum:
  "calculateSimilarity dp a b =
     0.4 * editSimilarity (title a) (title b)
     + (if start_date a = start_date b then 0.3
        else if startDatesWithin dp 3 (start_date a) (start_date b) then 0.15 else 0)
     + 0.2 * editSimilarity (location a) (location b)
     + (if is_online a = is_online b then 0.1 else 0)
   \<and> 0 \<le> calculateSimilarity dp a b \<and> calculateSimilarity dp a b \<le> 1
   \<and> isDuplicate dp a b (Some threshold) = (calculateSimilarity dp a b \<ge> threshold)
   \<and> isDuplicate dp a b None = (calculateSimilarity dp a b \<ge> 0.85)"
proof -
  have f: "calculateSimilarity dp a b =
     0.4 * editSimilarity (title a) (title b)
     + (if start_date a = start_date b then 0.3
        else if startDatesWithin dp 3 (start_date a) (start_date b) then 0.15 else 0)
     + 0.2 * editSimilarity (location a) (location b)
     + (if is_online a = is_online b then 0.1 else 0)"
    by (simp only: calculateSimilarity_unfold dateScore_spec)
  have t: "0 \<le> editSimilarity (title a) (title b)" "editSimilarity (title a) (title b) \<le> 1"
    and l: "0 \<le> editSimilarity (location a) (location b)" "editSimilarity (location a) (location b) \<le> 1"
    using editSimilarity_bounds by simp_all
  have d: "0 \<le> dateScore dp (start_date a) (start_date b)"
      "dateScore dp (start_date a) (start_date b) \<le> 0.3"
    using dateScore_bounds by simp_all
  have b: "0 \<le> calculateSimilarity dp a b \<and> calculateSimilarity dp a b \<le> 1"
    unfolding calculateSimilarity_unfold using t l d by (auto split: if_splits)
  have i: "isDuplicate dp a b (Some threshold) = (calculateSimilarity dp a b \<ge> threshold)"
     "isDuplicate dp a b None = (calculateSimilarity dp a b \<ge> 0.85)"
    by (simp_all add: isDuplicate_def defaultThreshold_def)
  from f b i show ?thesis by blast
qed

lemma calculateSimilarity_sym: "calculateSimilarity dp a b = calculateSimilarity dp b a"
  by (simp add: calculateSimilarity_unfold editSimilarity_sym [of "title a"]
      editSimilarity_sym [of "location a"] dateScore_sym [of dp "start_date a"] eq_commute [of "is_online a"])

lemma isDuplicate_sym: "isDuplicate dp a b thr = isDuplicate dp b a thr"
  by (simp add: isDuplicate_def calculateSimilarity_sym [of dp a b])

text \<open>
  Claim C9. Similarity is symmetric: \<open>calculateSimilarity a b\<close> equals
  \<open>calculateSimilarity b a\<close> for every pair of records.
\<close>

theorem similarity_symmetric:
  "calculateSimilarity dp a b = calculateSimilarity dp b a"
  by (rule calculateSimilarity_sym)

section \<open>The greedy grouping pass\<close>

lemma scan_loop:
  "distinct js \<Longrightarrow>
   foldl (scanStep dp hs t i) (ds, P) js =
     (ds @ map (\<lambda>j. hs ! j) (filter (\<lambda>j. j \<notin> P \<and> isDuplicate dp (hs ! i) (hs ! j) (Some t)) js),
      P \<union> set (filter (\<lambda>j. j \<notin> P \<and> isDuplicate dp (hs ! i) (hs ! j) (Some t)) js))"
proof (induction js arbitrary: ds P)
  case Nil
  then show ?case by simp
next
  case (Cons j js)
  let ?D = "\<lambda>j. isDuplicate dp (hs ! i) (hs ! j) (Some t)"
  from Cons.prems have j: "j \<notin> set js" and d: "distinct js" by simp_all
  show ?case
  proof (cases "j \<notin> P \<and> ?D j")
    case True
    have same: "filter (\<lambda>j'. j' \<notin> insert j P \<and> ?D j') js = filter (\<lambda>j'. j' \<notin> P \<and> ?D j') js"
      using j by (intro filter_cong) auto
    have "foldl (scanStep dp hs t i) (ds, P) (j # js)
        = foldl (scanStep dp hs t i) (ds @ [hs ! j], insert j P) js"
      using True by (simp add: scanStep_def)
    also have "\<dots> = ((ds @ [hs ! j]) @ map (\<lambda>j. hs ! j) (filter (\<lambda>j'. j' \<notin> insert j P \<and> ?D j') js),
        insert j P \<union> set (filter (\<lambda>j'. j' \<notin> insert j P \<and> ?D j') js))"
      by (rule Cons.IH [OF d])
    also have "\<dots> = (ds @ map (\<lambda>j. hs ! j) (filter (\<lambda>j'. j' \<notin> P \<and> ?D j') (j # js)),
        P \<union> set (filter (\<lambda>j'. j' \<notin> P \<and> ?D j') (j # js)))"
      using True by (simp only: same) simp
    finally show ?thesis .
  next
    case False
    then have "foldl (scanStep dp hs t i) (ds, P) (j # js) = foldl (scanStep dp hs t i) (ds, P) js"
      by (auto simp: scanStep_def)
    also have "\<dots> = (ds @ map (\<lambda>j. hs ! j) (filter (\<lambda>j'. j' \<notin> P \<and> ?D j') js),
        P \<union> set (filter (\<lambda>j'. j' \<notin> P \<and> ?D j') js))"
      by (rule Cons.IH [OF d])
    also have "\<dots> = (ds @ map (\<lambda>j. hs ! j) (filter (\<lambda>j'. j' \<notin> P \<and> ?D j') (j # js)),
        P \<union> set (filter (\<lambda>j'. j' \<notin> P \<and> ?D j') (j # js)))"
      using False by auto
    finally show ?thesis .
  qed
qed

lemma scanForward_eq:
  "scanForward dp hs t i P = (map (\<lambda>j. hs ! j) (dupIdx dp hs t i P), P \<union> set (dupIdx dp hs t i P))"
  by (simp add: scanForward_def dupIdx_def scan_loop)

lemma visit_loop:
  "fst (foldl (visit dp hs t) (gs, P) is) = gs @ map (groupAt hs) (groupsIdx dp hs t is P)"
proof (induction "is" arbitrary: gs P)
  case Nil
  then show ?case by simp
next
  case (Cons i "is")
  show ?case
  proof (cases "i \<in> P")
    case True
    then have "visit dp hs t (gs, P) i = (gs, P)"
      by (simp add: visit_def)
    then show ?thesis using True Cons.IH [of gs P] by simp
  next
    case False
    let ?js = "dupIdx dp hs t i P"
    let ?P = "insert i (P \<union> set ?js)"
    let ?gs = "if ?js \<noteq> [] then gs @ [groupAt hs (i, ?js)] else gs"
    have step: "visit dp hs t (gs, P) i = (?gs, ?P)"
      using False by (simp add: visit_def scanForward_eq groupAt_def)
    have "fst (foldl (visit dp hs t) (gs, P) (i # is)) = fst (foldl (visit dp hs t) (?gs, ?P) is)"
      by (simp only: foldl.simps step)
    also have "\<dots> = ?gs @ map (groupAt hs) (groupsIdx dp hs t is ?P)"
      by (rule Cons.IH)
    also have "\<dots> = gs @ map (groupAt hs) (groupsIdx dp hs t (i # is) P)"
      using False by simp
    finally show ?thesis .
  qed
qed

lemma findDuplicates_idx:
  "findDuplicates dp hs thr =
     map (groupAt hs)
       (groupsIdx dp hs (thresholdOrDefault thr) [0..<length hs] {})"
  by (simp add: findDuplicates_def Let_def visit_loop)

lemma dupIdx_mem:
  "j \<in> set (dupIdx dp hs t i P) \<longleftrightarrow>
     i < j \<and> j < length hs \<and> j \<notin> P \<and> isDuplicate dp (hs ! i) (hs ! j) (Some t)"
  by (auto simp: dupIdx_def)

lemma groupsIdx_origin:
  "g \<in> set (groupsIdx dp hs t is P) \<Longrightarrow>
   \<exists>Q. P \<subseteq> Q \<and> fst g \<notin> Q \<and> snd g = dupIdx dp hs t (fst g) Q \<and> snd g \<noteq> [] \<and> fst g \<in> set is"
proof (induction "is" arbitrary: P)
  case Nil
  then show ?case by simp
next
  case (Cons a "is")
  let ?js = "dupIdx dp hs t a P"
  let ?P = "insert a (P \<union> set ?js)"
  show ?case
  proof (cases "a \<in> P")
    case True
    with Cons.prems have "g \<in> set (groupsIdx dp hs t is P)" by simp
    from Cons.IH [OF this] show ?thesis by auto
  next
    case False
    with Cons.prems consider "g = (a, ?js)" "?js \<noteq> []" | "g \<in> set (groupsIdx dp hs t is ?P)"
      by (auto split: if_splits)
    then show ?thesis
    proof cases
      case 1
      with False show ?thesis by auto
    next
      case 2
      from Cons.IH [OF this] obtain Q where "?P \<subseteq> Q" "fst g \<notin> Q"
        "snd g = dupIdx dp hs t (fst g) Q" "snd g \<noteq> []" "fst g \<in> set is"
        by blast
      then show ?thesis by (intro exI [of _ Q]) auto
    qed
  qed
qed

lemma groupsIdx_basic:
  assumes "g \<in> set (groupsIdx dp hs t is P)"
  shows "fst g \<in> set is" "fst g \<notin> P" "snd g \<noteq> []"
    "\<And>j. j \<in> set (snd g) \<Longrightarrow> fst g < j \<and> j < length hs \<and> j \<notin> P"
    "distinct (snd g)"
proof -
  from groupsIdx_origin [OF assms] obtain Q where Q: "P \<subseteq> Q" "fst g \<notin> Q"
    "snd g = dupIdx dp hs t (fst g) Q" "snd g \<noteq> []" "fst g \<in> set is"
    by blast
  show "fst g \<in> set is" "fst g \<notin> P" "snd g \<noteq> []"
    using Q by auto
  show "fst g < j \<and> j < length hs \<and> j \<notin> P" if "j \<in> set (snd g)" for j
    using that Q dupIdx_mem [of j dp hs t "fst g" Q] by auto
  show "distinct (snd g)"
    using Q by (simp add: dupIdx_def)
qed

lemma groupsIdx_sorted:
  "sorted_wrt (<) is \<Longrightarrow> sorted_wrt (<) (map fst (groupsIdx dp hs t is P))"
proof (induction "is" arbitrary: P)
  case Nil
  then show ?case by simp
next
  case (Cons a "is")
  let ?P = "insert a (P \<union> set (dupIdx dp hs t a P))"
  from Cons.prems have s: "sorted_wrt (<) is" and a: "\<forall>x \<in> set is. a < x"
    by simp_all
  have later: "a < fst g" if "g \<in> set (groupsIdx dp hs t is Q)" for g Q
    using groupsIdx_basic(1) [OF that] a by blast
  show ?case
    using Cons.IH [OF s, of P] Cons.IH [OF s, of ?P] later
    by (auto simp: sorted_wrt_append)
qed

lemma groupsIdx_distinct:
  "sorted_wrt (<) is \<Longrightarrow> distinct (concat (map (\<lambda>g. fst g # snd g) (groupsIdx dp hs t is P)))"
proof (induction "is" arbitrary: P)
  case Nil
  then show ?case by simp
next
  case (Cons a "is")
  let ?js = "dupIdx dp hs t a P"
  let ?P = "insert a (P \<union> set ?js)"
  from Cons.prems have s: "sorted_wrt (<) is"
    by simp
  show ?case
  proof (cases "a \<in> P \<or> ?js = []")
    case True
    then show ?thesis
      using Cons.IH [OF s, of P] Cons.IH [OF s, of ?P] by auto
  next
    case False
    have rest: "distinct (concat (map (\<lambda>g. fst g # snd g) (groupsIdx dp hs t is ?P)))"
      by (rule Cons.IH [OF s])
    have own: "distinct (a # ?js)"
      by (auto simp: dupIdx_mem) (simp add: dupIdx_def)
    have apart: "x \<notin> set (a # ?js)"
      if "x \<in> set (concat (map (\<lambda>g. fst g # snd g) (groupsIdx dp hs t is ?P)))" for x
    proof -
      from that obtain g where g: "g \<in> set (groupsIdx dp hs t is ?P)" and x: "x = fst g \<or> x \<in> set (snd g)"
        by auto
      from x groupsIdx_basic(2,4) [OF g] have "x \<notin> ?P"
        by blast
      then show ?thesis by simp
    qed
    from False have "groupsIdx dp hs t (a # is) P = (a, ?js) # groupsIdx dp hs t is ?P"
      by simp
    then show ?thesis
      using rest own apart by (simp del: groupsIdx.simps) blast
  qed
qed

lemma groupsIdx_primaries_apart:
  assumes "sorted_wrt (<) is" "set is \<subseteq> {..<length hs}"
    and "g \<in> set (groupsIdx dp hs t is P)" "g' \<in> set (groupsIdx dp hs t is P)" "fst g < fst g'"
  shows "\<not> isDuplicate dp (hs ! fst g) (hs ! fst g') (Some t)"
  using assms
proof (induction "is" arbitrary: P)
  case Nil
  then show ?case by simp
next
  case (Cons a "is")
  let ?js = "dupIdx dp hs t a P"
  let ?P = "insert a (P \<union> set ?js)"
  from Cons.prems have s: "sorted_wrt (<) is" "set is \<subseteq> {..<length hs}" and a: "\<forall>x \<in> set is. a < x"
    by simp_all
  show ?case
  proof (cases "a \<in> P")
    case True
    with Cons.prems have "g \<in> set (groupsIdx dp hs t is P)" "g' \<in> set (groupsIdx dp hs t is P)"
      by simp_all
    from Cons.IH [OF s this Cons.prems(5)] show ?thesis .
  next
    case False
    have later: "a < fst x" if "x \<in> set (groupsIdx dp hs t is ?P)" for x
      using groupsIdx_basic(1) [OF that] a by blast
    from False Cons.prems(3) have g: "g = (a, ?js) \<or> g \<in> set (groupsIdx dp hs t is ?P)"
      by (auto split: if_splits)
    from False Cons.prems(4) have g': "g' = (a, ?js) \<or> g' \<in> set (groupsIdx dp hs t is ?P)"
      by (auto split: if_splits)
    show ?thesis
    proof (cases "g = (a, ?js)")
      case True
      with Cons.prems(5) have "fst g' \<noteq> a"
        by simp
      then have "g' \<noteq> (a, ?js)"
        by auto
      with g' have in': "g' \<in> set (groupsIdx dp hs t is ?P)"
        by simp
      from groupsIdx_basic(1,2) [OF in'] have k: "fst g' \<in> set is" "fst g' \<notin> ?P"
        by simp_all
      with s a have "a < fst g'" "fst g' < length hs" "fst g' \<notin> P" "fst g' \<notin> set ?js"
        by auto
      then show ?thesis
        using True dupIdx_mem [of "fst g'" dp hs t a P] by simp
    next
      case False
      with g have in1: "g \<in> set (groupsIdx dp hs t is ?P)" by simp
      from later [OF in1] Cons.prems(5) have "fst g' \<noteq> a"
        by simp
      then have "g' \<noteq> (a, ?js)"
        by auto
      with g' have in2: "g' \<in> set (groupsIdx dp hs t is ?P)"
        by simp
      from Cons.IH [OF s in1 in2 Cons.prems(5)] show ?thesis .
    qed
  qed
qed


lemma assignedBefore_step:
  assumes "a \<notin> P" "a < i" "i < j"
  shows "(j \<notin> insert a (P \<union> set (dupIdx dp hs t a P)) \<and>
          \<not> assignedBefore (groupsIdx dp hs t is (insert a (P \<union> set (dupIdx dp hs t a P)))) i j)
       = (j \<notin> P \<and> \<not> assignedBefore (groupsIdx dp hs t (a # is) P) i j)"
proof -
  let ?js = "dupIdx dp hs t a P"
  let ?G' = "groupsIdx dp hs t is (insert a (P \<union> set ?js))"
  have "set (groupsIdx dp hs t (a # is) P) = (if ?js \<noteq> [] then {(a, ?js)} else {}) \<union> set ?G'"
    using assms(1) by simp
  then have "assignedBefore (groupsIdx dp hs t (a # is) P) i j
      = ((?js \<noteq> [] \<and> a < i \<and> j \<in> set ?js) \<or> assignedBefore ?G' i j)"
    unfolding assignedBefore_def by (cases "?js = []") auto
  also have "\<dots> = (j \<in> set ?js \<or> assignedBefore ?G' i j)"
    using assms(2) by auto
  finally show ?thesis
    using assms(2,3) by auto
qed

lemma assignedBefore_first:
  assumes "sorted_wrt (<) (a # is)"
  shows "\<not> assignedBefore (groupsIdx dp hs t (a # is) P) a j"
proof
  assume "assignedBefore (groupsIdx dp hs t (a # is) P) a j"
  then obtain g where g: "g \<in> set (groupsIdx dp hs t (a # is) P)" "fst g < a"
    by (auto simp: assignedBefore_def)
  from groupsIdx_basic(1) [OF g(1)] assms have "a \<le> fst g"
    by auto
  with g(2) show False by simp
qed

lemma groupsIdx_later:
  assumes "sorted_wrt (<) is" "g \<in> set (groupsIdx dp hs t is P)"
  shows "snd g = filter (\<lambda>j. j \<notin> P \<and> \<not> assignedBefore (groupsIdx dp hs t is P) (fst g) j
                          \<and> isDuplicate dp (hs ! fst g) (hs ! j) (Some t))
                   [fst g + 1..<length hs]"
  using assms
proof (induction "is" arbitrary: P)
  case Nil
  then show ?case by simp
next
  case (Cons a "is")
  let ?js = "dupIdx dp hs t a P"
  let ?P = "insert a (P \<union> set ?js)"
  from Cons.prems have s: "sorted_wrt (<) is" and a: "\<forall>x \<in> set is. a < x"
    by simp_all
  show ?case
  proof (cases "a \<in> P")
    case True
    with Cons.prems have "g \<in> set (groupsIdx dp hs t is P)"
      by simp
    from Cons.IH [OF s this] True show ?thesis
      by simp
  next
    case False
    from False Cons.prems(2) have g: "g = (a, ?js) \<or> g \<in> set (groupsIdx dp hs t is ?P)"
      by (auto split: if_splits)
    show ?thesis
    proof (cases "g \<in> set (groupsIdx dp hs t is ?P)")
      case True
      from groupsIdx_basic(1) [OF True] a have lt: "a < fst g"
        by blast
      have "snd g = filter (\<lambda>j. j \<notin> ?P \<and> \<not> assignedBefore (groupsIdx dp hs t is ?P) (fst g) j
                          \<and> isDuplicate dp (hs ! fst g) (hs ! j) (Some t))
                   [fst g + 1..<length hs]"
        by (rule Cons.IH [OF s True])
      also have "\<dots> = filter (\<lambda>j. j \<notin> P \<and> \<not> assignedBefore (groupsIdx dp hs t (a # is) P) (fst g) j
                          \<and> isDuplicate dp (hs ! fst g) (hs ! j) (Some t))
                   [fst g + 1..<length hs]"
      proof (rule filter_cong [OF refl])
        fix j
        assume "j \<in> set [fst g + 1..<length hs]"
        then have "fst g < j" by simp
        from assignedBefore_step [OF False lt this, of dp hs t "is"]
        show "(j \<notin> ?P \<and> \<not> assignedBefore (groupsIdx dp hs t is ?P) (fst g) j
                \<and> isDuplicate dp (hs ! fst g) (hs ! j) (Some t))
            = (j \<notin> P \<and> \<not> assignedBefore (groupsIdx dp hs t (a # is) P) (fst g) j
                \<and> isDuplicate dp (hs ! fst g) (hs ! j) (Some t))"
          by blast
      qed
      finally show ?thesis .
    next
      case False
      with g have eq: "g = (a, ?js)" by simp
      have "?js = filter (\<lambda>j. j \<notin> P \<and> \<not> assignedBefore (groupsIdx dp hs t (a # is) P) a j
                          \<and> isDuplicate dp (hs ! a) (hs ! j) (Some t))
                   [a + 1..<length hs]"
        unfolding dupIdx_def
        using assignedBefore_first [OF Cons.prems(1), of dp hs t P]
        by (intro filter_cong [OF refl]) blast
      then show ?thesis
        by (simp only: eq fst_conv snd_conv)
    qed
  qed
qed

lemma groupsIdx_complete:
  assumes "sorted_wrt (<) is" "i \<in> set is" "i \<notin> P"
    and "\<not> assignedBefore (groupsIdx dp hs t is P) i i"
    and "filter (\<lambda>j. j \<notin> P \<and> \<not> assignedBefore (groupsIdx dp hs t is P) i j
                          \<and> isDuplicate dp (hs ! i) (hs ! j) (Some t))
                   [i + 1..<length hs] \<noteq> []"
  shows "i \<in> fst ` set (groupsIdx dp hs t is P)"
  using assms
proof (induction "is" arbitrary: P)
  case Nil
  then show ?case by simp
next
  case (Cons a "is")
  let ?js = "dupIdx dp hs t a P"
  let ?P = "insert a (P \<union> set ?js)"
  from Cons.prems(1) have s: "sorted_wrt (<) is" and a: "\<forall>x \<in> set is. a < x"
    by simp_all
  show ?case
  proof (cases "a \<in> P")
    case True
    with Cons.prems(2,3) have i: "i \<in> set is" by auto
    have eq: "groupsIdx dp hs t (a # is) P = groupsIdx dp hs t is P"
      using True by simp
    from Cons.IH [OF s i Cons.prems(3) Cons.prems(4) [unfolded eq] Cons.prems(5) [unfolded eq]]
    show ?thesis
      unfolding eq .
  next
    case False
    show ?thesis
    proof (cases "i = a")
      case True
      have "?js = filter (\<lambda>j. j \<notin> P \<and> \<not> assignedBefore (groupsIdx dp hs t (a # is) P) a j
                          \<and> isDuplicate dp (hs ! a) (hs ! j) (Some t))
                   [a + 1..<length hs]"
        unfolding dupIdx_def
        using assignedBefore_first [OF Cons.prems(1), of dp hs t P]
        by (intro filter_cong [OF refl]) blast
      with Cons.prems(5) True have "?js \<noteq> []"
        by (simp del: groupsIdx.simps)
      then have "(a, ?js) \<in> set (groupsIdx dp hs t (a # is) P)"
        using False by simp
      then have "fst (a, ?js) \<in> fst ` set (groupsIdx dp hs t (a # is) P)"
        by (rule imageI)
      then show ?thesis
        using True by simp
    next
      case ne: False
      with Cons.prems(2) have i: "i \<in> set is" by simp
      with a have lt: "a < i" by blast
      have sub: "set (groupsIdx dp hs t is ?P) \<subseteq> set (groupsIdx dp hs t (a # is) P)"
        using False by auto
      have n1: "\<not> assignedBefore (groupsIdx dp hs t is ?P) i i"
        using Cons.prems(4) sub unfolding assignedBefore_def by blast
      have "i \<notin> set ?js"
      proof
        assume m: "i \<in> set ?js"
        then have "(a, ?js) \<in> set (groupsIdx dp hs t (a # is) P)"
          using False by auto
        with lt m have "assignedBefore (groupsIdx dp hs t (a # is) P) i i"
          unfolding assignedBefore_def by (intro bexI [of _ "(a, ?js)"]) simp_all
        with Cons.prems(4) show False by simp
      qed
      with ne Cons.prems(3) have n2: "i \<notin> ?P"
        by simp
      have feq: "filter (\<lambda>j. j \<notin> ?P \<and> \<not> assignedBefore (groupsIdx dp hs t is ?P) i j
                          \<and> isDuplicate dp (hs ! i) (hs ! j) (Some t))
                   [i + 1..<length hs]
          = filter (\<lambda>j. j \<notin> P \<and> \<not> assignedBefore (groupsIdx dp hs t (a # is) P) i j
                          \<and> isDuplicate dp (hs ! i) (hs ! j) (Some t))
                   [i + 1..<length hs]"
      proof (rule filter_cong [OF refl])
        fix j
        assume "j \<in> set [i + 1..<length hs]"
        then have "i < j" by simp
        from assignedBefore_step [OF False lt this, of dp hs t "is"]
        show "(j \<notin> ?P \<and> \<not> assignedBefore (groupsIdx dp hs t is ?P) i j
                \<and> isDuplicate dp (hs ! i) (hs ! j) (Some t))
            = (j \<notin> P \<and> \<not> assignedBefore (groupsIdx dp hs t (a # is) P) i j
                \<and> isDuplicate dp (hs ! i) (hs ! j) (Some t))"
          by blast
      qed
      have n3: "filter (\<lambda>j. j \<notin> ?P \<and> \<not> assignedBefore (groupsIdx dp hs t is ?P) i j
                          \<and> isDuplicate dp (hs ! i) (hs ! j) (Some t))
                   [i + 1..<length hs] \<noteq> []"
        unfolding feq by (rule Cons.prems(5))
      from Cons.IH [OF s i n2 n1 n3] sub show ?thesis
        by blast
    qed
  qed
qed


lemma laterDuplicates_filter:
  "laterDuplicates dp hs t G i =
     filter (\<lambda>j. j \<notin> {} \<and> \<not> assignedBefore G i j \<and> isDuplicate dp (hs ! i) (hs ! j) (Some t))
       [i + 1..<length hs]"
  by (simp add: laterDuplicates_def)

lemma groupsIdx_greedy:
  fixes dp hs t
  defines "G \<equiv> groupsIdx dp hs t [0..<length hs] {}"
  shows "greedyGrouping dp hs t G"
    and "distinct (concat (map (\<lambda>g. fst g # snd g) G))"
    and "\<And>g g'. g \<in> set G \<Longrightarrow> g' \<in> set G \<Longrightarrow> fst g \<noteq> fst g' \<Longrightarrow>
           \<not> isDuplicate dp (hs ! fst g) (hs ! fst g') (Some t)"
proof -
  have s: "sorted_wrt (<) [0..<length hs]"
    by simp
  show d: "distinct (concat (map (\<lambda>g. fst g # snd g) G))"
    unfolding G_def by (rule groupsIdx_distinct [OF s])
  have later: "snd g = laterDuplicates dp hs t G (fst g)" if "g \<in> set G" for g
    unfolding laterDuplicates_filter
    using groupsIdx_later [OF s, of g dp hs t "{}"] that by (simp only: G_def)
  have bound: "fst g < length hs" if "g \<in> set G" for g
    using groupsIdx_basic(1) [of g dp hs t "[0..<length hs]" "{}"] that by (simp add: G_def)
  have unassigned: "\<not> assignedBefore G (fst g) (fst g)" if g: "g \<in> set G" for g
  proof
    assume "assignedBefore G (fst g) (fst g)"
    then obtain g' where g': "g' \<in> set G" "fst g' < fst g" "fst g \<in> set (snd g')"
      by (auto simp: assignedBefore_def)
    let ?f = "\<lambda>g. fst g # snd g"
    from g g' have "?f g \<in> set (map ?f G)" "?f g' \<in> set (map ?f G)" "?f g \<noteq> ?f g'"
      by auto
    with d have "set (?f g) \<inter> set (?f g') = {}"
      unfolding distinct_concat_iff by blast
    with g'(3) show False by auto
  qed
  have complete: "i \<in> fst ` set G"
    if "i < length hs" "\<not> assignedBefore G i i" "laterDuplicates dp hs t G i \<noteq> []" for i
    unfolding G_def
    by (rule groupsIdx_complete [OF s]) (use that in \<open>simp_all add: laterDuplicates_filter G_def\<close>)
  show "greedyGrouping dp hs t G"
    unfolding greedyGrouping_def
  proof (intro conjI allI impI ballI)
    show "sorted_wrt (<) (map fst G)"
      unfolding G_def by (rule groupsIdx_sorted [OF s])
  next
    fix i
    assume i: "i < length hs"
    show "(i \<in> fst ` set G) = (\<not> assignedBefore G i i \<and> laterDuplicates dp hs t G i \<noteq> [])"
    proof
      assume "i \<in> fst ` set G"
      then obtain g where g: "g \<in> set G" "i = fst g"
        by auto
      from groupsIdx_basic(3) [of g dp hs t "[0..<length hs]" "{}"] g(1) have "snd g \<noteq> []"
        by (simp add: G_def)
      with later [OF g(1)] unassigned [OF g(1)] g(2)
      show "\<not> assignedBefore G i i \<and> laterDuplicates dp hs t G i \<noteq> []"
        by simp
    next
      assume "\<not> assignedBefore G i i \<and> laterDuplicates dp hs t G i \<noteq> []"
      with complete [OF i] show "i \<in> fst ` set G"
        by blast
    qed
  next
    fix g
    assume "g \<in> set G"
    then show "fst g < length hs" "snd g = laterDuplicates dp hs t G (fst g)"
      using bound later by blast+
  qed
  show "\<not> isDuplicate dp (hs ! fst g) (hs ! fst g') (Some t)"
    if g: "g \<in> set G" "g' \<in> set G" "fst g \<noteq> fst g'" for g g'
  proof (cases "fst g < fst g'")
    case True
    show ?thesis
      by (rule groupsIdx_primaries_apart [OF s _ g(1,2) [unfolded G_def] True]) auto
  next
    case False
    with g(3) have lt: "fst g' < fst g" by simp
    have "\<not> isDuplicate dp (hs ! fst g') (hs ! fst g) (Some t)"
      by (rule groupsIdx_primaries_apart [OF s _ g(2,1) [unfolded G_def] lt]) auto
    then show ?thesis
      by (simp add: isDuplicate_sym [of dp "hs ! fst g"])
  qed
qed

text \<open>
  Claim C3. \<open>findDuplicates\<close> is one greedy pass. Its result is the list of groups
  \<open>G\<close> of positions of the input, in the order of their primaries, where: a position is
  a primary exactly when it was not taken as a duplicate by an earlier primary and some
  later, not yet taken record scores at least the threshold against it; the duplicates of
  a primary are exactly those later records, in input order. Hence no position occurs
  twice in the groups, and no two distinct primaries are duplicates of each other.
\<close>

theorem findDuplicates_greedy_pass:
  "\<exists>G. findDuplicates dp hs threshold = map (groupAt hs) G
      \<and> greedyGrouping dp hs (thresholdOrDefault threshold) G
      \<and> distinct (concat (map (\<lambda>g. fst g # snd g) G))
      \<and> (\<forall>g \<in> set G. \<forall>g' \<in> set G. fst g \<noteq> fst g' \<longrightarrow>
            \<not> isDuplicate dp (hs ! fst g) (hs ! fst g') (Some (thresholdOrDefault threshold)))"
proof -
  let ?t = "thresholdOrDefault threshold"
  let ?G = "groupsIdx dp hs ?t [0..<length hs] {}"
  have "findDuplicates dp hs threshold = map (groupAt hs) ?G"
    by (simp add: findDuplicates_idx)
  with groupsIdx_greedy [where dp = dp and hs = hs and t = ?t] show ?thesis
    by (intro exI [of _ ?G]) blast
qed

text \<open>The pass on the four example records yields two groups.\<close>

lemma findDuplicates_fourHacks: "findDuplicates isoDateParse fourHacks None = map (groupAt fourHacks) [(0, [1]), (2, [3])]"
  by code_simp

theorem findDuplicates_greedy_pass_witness:
  "\<exists>G. length G = 2
      \<and> findDuplicates isoDateParse fourHacks None = map (groupAt fourHacks) G
      \<and> greedyGrouping isoDateParse fourHacks (thresholdOrDefault None) G
      \<and> distinct (concat (map (\<lambda>g. fst g # snd g) G))
      \<and> (\<forall>g \<in> set G. \<forall>g' \<in> set G. fst g \<noteq> fst g' \<longrightarrow>
            \<not> isDuplicate isoDateParse (fourHacks ! fst g) (fourHacks ! fst g') (Some (thresholdOrDefault None)))"
proof -
  from findDuplicates_greedy_pass [of isoDateParse fourHacks None]
  obtain G where G: "findDuplicates isoDateParse fourHacks None = map (groupAt fourHacks) G"
      "greedyGrouping isoDateParse fourHacks (thresholdOrDefault None) G"
      "distinct (concat (map (\<lambda>g. fst g # snd g) G))"
      "\<forall>g \<in> set G. \<forall>g' \<in> set G. fst g \<noteq> fst g' \<longrightarrow>
            \<not> isDuplicate isoDateParse (fourHacks ! fst g) (fourHacks ! fst g') (Some (thresholdOrDefault None))"
    by blast
  have "length (findDuplicates isoDateParse fourHacks None) = 2"
    by (simp add: findDuplicates_fourHacks)
  with G(1) have "length G = 2"
    by simp
  with G show ?thesis
    by blast
qed

section \<open>The merge policy\<close>

lemma indexOf_source:
  "indexOf sourcePriority s = (case s of MLH \<Rightarrow> 0 | Devpost \<Rightarrow> 1 | Eventbrite \<Rightarrow> 2)"
  by (cases s) (simp_all add: sourcePriority_def)

lemma pickBest_rank:
  "pickBest best d =
     (if indexOf sourcePriority (source d) < indexOf sourcePriority (source best) then d else best)"
  by (cases "source d") (simp_all add: pickBest_def Let_def indexOf_source)

lemma find_append:
  "find P (xs @ ys) = (case find P xs of None \<Rightarrow> find P ys | Some x \<Rightarrow> Some x)"
  by (induction xs) simp_all

lemma find_cong_set:
  "(\<And>x. x \<in> set xs \<Longrightarrow> P x = Q x) \<Longrightarrow> find P xs = find Q xs"
  by (induction xs) simp_all

lemma find_None_set: "(\<And>x. x \<in> set xs \<Longrightarrow> \<not> P x) \<Longrightarrow> find P xs = None"
  by (induction xs) simp_all

lemma find_SomeD: "find P xs = Some x \<Longrightarrow> x \<in> set xs \<and> P x"
  by (induction xs) (auto split: if_splits)

lemma mergeBase_first_best:
  "find (\<lambda>e. \<forall>e' \<in> set (orig # dups).
               indexOf sourcePriority (source e) \<le> indexOf sourcePriority (source e'))
        (orig # dups) = Some (mergeBase orig dups)"
proof (induction dups rule: rev_induct)
  case Nil
  show ?case by (simp add: mergeBase_def)
next
  case (snoc d dups)
  let ?r = "\<lambda>e. indexOf sourcePriority (source e)"
  let ?all = "orig # dups"
  let ?b = "mergeBase orig dups"
  let ?best = "\<lambda>es e. \<forall>e' \<in> set es. ?r e \<le> ?r e'"
  have step: "mergeBase orig (dups @ [d]) = (if ?r d < ?r ?b then d else ?b)"
    by (simp add: mergeBase_def pickBest_rank)
  note fb = snoc.IH
  from find_SomeD [OF fb] have b: "?b \<in> set ?all" "?best ?all ?b"
    by blast+
  show ?case
  proof (cases "?r d < ?r ?b")
    case True
    have none: "find (?best (?all @ [d])) ?all = None"
    proof (rule find_None_set)
      fix x
      assume "x \<in> set ?all"
      with b(2) True show "\<not> ?best (?all @ [d]) x"
        by (auto intro!: bexI [of _ d])
    qed
    have "?best (?all @ [d]) d"
      using b True by auto
    then have "find (?best (?all @ [d])) (?all @ [d]) = Some d"
      by (simp only: find_append none) simp
    with True step show ?thesis
      by (simp only: append_Cons if_True)
  next
    case False
    have "find (?best (?all @ [d])) ?all = find (?best ?all) ?all"
    proof (rule find_cong_set)
      fix x
      assume "x \<in> set ?all"
      show "?best (?all @ [d]) x = ?best ?all x"
        using b False by fastforce
    qed
    then have "find (?best (?all @ [d])) (?all @ [d]) = Some ?b"
      by (simp only: find_append fb) simp
    with False step show ?thesis
      by (simp only: append_Cons if_False)
  qed
qed

lemma sorted_hd_Min:
  "sorted xs \<Longrightarrow> xs \<noteq> [] \<Longrightarrow> hd xs = Min (set xs)"
  by (cases xs) (auto intro!: Min_eqI [symmetric])

lemma firstOf_sort:
  fixes xs :: "string list"
  shows "firstOf (sort xs) = (if xs = [] then None else Some (Min (set xs)))"
proof (cases "xs = []")
  case True
  then show ?thesis by (simp add: firstOf_def)
next
  case False
  then have ne: "sort xs \<noteq> []"
    by (metis length_0_conv length_sort)
  with sorted_hd_Min [of "sort xs"] have "hd (sort xs) = Min (set xs)"
    by simp
  with ne False show ?thesis
    by (cases "sort xs") (simp_all add: firstOf_def)
qed

lemma presentValues_truthy:
  "x \<in> set (presentValues f es) \<Longrightarrow> x \<noteq> []"
  by (induction es) (auto simp: presentValues_def List.map_filter_simps truthy_def split: option.splits if_splits)

lemma findField_present:
  "findField (\<lambda>e. truthy (f e)) f es = firstOf (presentValues f es)"
  by (induction es)
     (auto simp: findField_def presentValues_def firstOf_def List.map_filter_simps truthy_def
           split: option.splits list.splits)

lemma jsOr_Some: "truthy (Some u) \<Longrightarrow> jsOr (Some u) b = Some u"
  by (simp add: jsOr_def)

lemma jsOr_None: "jsOr None b = b"
  by (simp add: jsOr_def truthy_def)

lemma merged_description:
  fixes orig dups
  defines "all \<equiv> orig # dups" and "base \<equiv> mergeBase orig dups"
  defines "longer \<equiv> \<lambda>e. truthy (description e) \<and> lengthOr0 (description e) > lengthOr0 (description base)"
  shows "description (mergeDuplicates orig dups) =
           (case find longer all of None \<Rightarrow> description base | Some e \<Rightarrow> description e)"
proof (cases "find longer all")
  case None
  then show ?thesis
    by (simp add: mergeDuplicates_def Let_def findField_def jsOr_None all_def base_def longer_def)
next
  case (Some e)
  from find_SomeD [OF Some] have "truthy (description e)"
    by (simp add: longer_def)
  with Some show ?thesis
    by (simp add: mergeDuplicates_def Let_def findField_def jsOr_def all_def base_def longer_def)
qed

lemma earliest_deadline:
  assumes "ds \<noteq> []" "list_all isoTimestamp ds"
  shows "Min (set ds) \<in> set ds \<and>
    (\<exists>t. isoDateParse (Min (set ds)) = Some t \<and> (\<forall>d' \<in> set ds. \<exists>t'. isoDateParse d' = Some t' \<and> t \<le> t'))"
proof -
  from assms(1) have mem: "Min (set ds) \<in> set ds"
    by (intro Min_in) simp_all
  with assms(2) have iso: "isoTimestamp (Min (set ds))"
    by (simp add: list_all_iff)
  then obtain t where t: "isoDateParse (Min (set ds)) = Some t"
    by (auto simp: isoTimestamp_def)
  have "\<exists>t'. isoDateParse d' = Some t' \<and> t \<le> t'" if "d' \<in> set ds" for d'
  proof -
    from that assms(2) have iso': "isoTimestamp d'"
      by (simp add: list_all_iff)
    then obtain t' where t': "isoDateParse d' = Some t'"
      by (auto simp: isoTimestamp_def)
    have "Min (set ds) \<le> d'"
      using that by simp
    with iso_order [OF iso iso' t t'] t' show ?thesis
      by simp
  qed
  with mem t show ?thesis
    by blast
qed

lemma merged_description_first_longer:
  "description (mergeDuplicates listingDevpost [listingMLH, listingEventbrite]) = Some ''bb''
   \<and> description listingEventbrite = Some ''cccc''"
  by code_simp

text \<open>
  Claim C2, as the code has it by design. The base of the merge is the first member of
  the group (the original, then the duplicates in order) whose source ranks highest in
  \<open>['mlh', 'devpost', 'eventbrite']\<close>. Title, start, end, location, online flag and source
  are the base's. When no deadline is present in the group the registration deadline is
  the base's; when the deadlines present are timestamps as \<open>toISOString\<close> writes them, it
  is the earliest of them. The registration URL is the first non-empty one of the group,
  whether or not the base has its own. The website URL is the base's own when it has one,
  else the first one of the group. In a group of two records the description is that of
  a member, and no member has a longer one.
\<close>

theorem mergeDuplicates_policy:
  fixes orig dups
  defines "all \<equiv> orig # dups"
    and "base \<equiv> mergeBase orig dups"
    and "m \<equiv> mergeDuplicates orig dups"
  defines "deadlines \<equiv> presentValues registration_deadline all"
  shows
    "find (\<lambda>e. \<forall>e' \<in> set all.
               indexOf sourcePriority (source e) \<le> indexOf sourcePriority (source e')) all = Some base
     \<and> title m = title base \<and> start_date m = start_date base \<and> end_date m = end_date base
     \<and> location m = location base \<and> is_online m = is_online base \<and> source m = source base
     \<and> (deadlines = [] \<longrightarrow> registration_deadline m = registration_deadline base)
     \<and> (deadlines \<noteq> [] \<and> list_all isoTimestamp deadlines \<longrightarrow>
          (\<exists>d t. registration_deadline m = Some d \<and> d \<in> set deadlines \<and> isoDateParse d = Some t
             \<and> (\<forall>d' \<in> set deadlines. \<exists>t'. isoDateParse d' = Some t' \<and> t \<le> t')))
     \<and> registration_url m =
          (case firstOf (presentValues registration_url all) of
             None \<Rightarrow> registration_url base | Some u \<Rightarrow> Some u)
     \<and> website_url m = ownOrFirstPresent website_url base all
     \<and> (length dups \<le> 1 \<longrightarrow>
          (\<exists>e \<in> set all. description m = description e)
          \<and> (\<forall>e \<in> set all. lengthOr0 (description e) \<le> lengthOr0 (description m)))"
proof -
  let ?longer = "\<lambda>e. truthy (description e) \<and> lengthOr0 (description e) > lengthOr0 (description base)"
  have b: "find (\<lambda>e. \<forall>e' \<in> set all.
               indexOf sourcePriority (source e) \<le> indexOf sourcePriority (source e')) all = Some base"
    unfolding all_def base_def by (rule mergeBase_first_best)
  from find_SomeD [OF b] have base_in: "base \<in> set all"
    by simp
  have f: "title m = title base" "start_date m = start_date base" "end_date m = end_date base"
    "location m = location base" "is_online m = is_online base" "source m = source base"
    by (simp_all add: m_def base_def mergeDuplicates_def Let_def)
  have dl: "registration_deadline m =
          (if deadlines = [] then registration_deadline base else Some (Min (set deadlines)))"
  proof (cases "deadlines = []")
    case True
    then show ?thesis
      by (simp add: m_def base_def all_def deadlines_def mergeDuplicates_def Let_def firstOf_sort jsOr_None)
  next
    case False
    then have "Min (set deadlines) \<in> set deadlines"
      by (intro Min_in) simp_all
    then have "truthy (Some (Min (set deadlines)))"
      using presentValues_truthy [of "Min (set deadlines)" registration_deadline all]
      by (simp add: truthy_def deadlines_def)
    from jsOr_Some [OF this] False show ?thesis
      by (simp add: m_def base_def all_def deadlines_def mergeDuplicates_def Let_def firstOf_sort)
  qed
  have d0: "registration_deadline m = registration_deadline base" if "deadlines = []"
    using dl that by simp
  have d1: "\<exists>d t. registration_deadline m = Some d \<and> d \<in> set deadlines \<and> isoDateParse d = Some t
             \<and> (\<forall>d' \<in> set deadlines. \<exists>t'. isoDateParse d' = Some t' \<and> t \<le> t')"
    if "deadlines \<noteq> [] \<and> list_all isoTimestamp deadlines"
    using earliest_deadline [of deadlines] dl that by auto
  have ru: "registration_url m =
          (case firstOf (presentValues registration_url all) of
             None \<Rightarrow> registration_url base | Some u \<Rightarrow> Some u)"
  proof (cases "presentValues registration_url all")
    case Nil
    then show ?thesis
      by (simp add: m_def base_def all_def mergeDuplicates_def Let_def findField_present firstOf_def jsOr_None)
  next
    case (Cons u us)
    then have "u \<in> set (presentValues registration_url all)"
      by simp
    from presentValues_truthy [OF this] have "truthy (Some u)"
      by (simp add: truthy_def)
    from jsOr_Some [OF this] Cons show ?thesis
      by (simp add: m_def base_def all_def mergeDuplicates_def Let_def findField_present firstOf_def)
  qed
  have wu: "website_url m = ownOrFirstPresent website_url base all"
    by (simp add: m_def base_def all_def mergeDuplicates_def Let_def findField_present
        ownOrFirstPresent_def jsOr_def)
  have d: "description m = (case find ?longer all of None \<Rightarrow> description base | Some e \<Rightarrow> description e)"
    unfolding m_def all_def base_def by (rule merged_description)
  have d3: "(\<exists>e \<in> set all. description m = description e)
          \<and> (\<forall>e \<in> set all. lengthOr0 (description e) \<le> lengthOr0 (description m))"
    if "length dups \<le> 1"
  proof (cases "find ?longer all")
    case None
    have "lengthOr0 (description e) \<le> lengthOr0 (description base)" if "e \<in> set all" for e
    proof (rule ccontr)
      assume "\<not> lengthOr0 (description e) \<le> lengthOr0 (description base)"
      then have "?longer e"
        by (cases "description e") (auto simp: truthy_def lengthOr0_def)
      with that None show False
        by (auto simp: find_None_iff)
    qed
    with d None base_in show ?thesis by auto
  next
    case (Some e)
    from find_SomeD [OF Some] have e: "e \<in> set all" "lengthOr0 (description base) < lengthOr0 (description e)"
      by simp_all
    have "lengthOr0 (description x) \<le> lengthOr0 (description e)" if "x \<in> set all" for x
    proof -
      from \<open>length dups \<le> 1\<close> obtain y where "set all \<subseteq> {orig, y}"
        by (cases dups) (auto simp: all_def)
      with that e(1) base_in have "x = e \<or> x = base \<or> e = base"
        by auto
      with e(2) show ?thesis by auto
    qed
    with d Some e(1) show ?thesis by auto
  qed
  from b f d0 d1 ru wu d3 show ?thesis
    by blast
qed

text \<open>
  The claim as worded fails on two listings of one event: the base, from MLH, has a
  registration URL of its own, and the merged record has the one of the Devpost listing,
  which comes first in the group.
\<close>

theorem mergeDuplicates_counterexample:
  "registration_url (mergeBase listingDevpost [listingMLH]) = Some ''https://m.example/r''
   \<and> registration_url (mergeDuplicates listingDevpost [listingMLH]) = Some ''https://d.example/r''"
  by code_simp

lemma listing_deadlines:
  "presentValues registration_deadline [listingDevpost, listingMLH]
     = [''2024-10-10T00:00:00.000Z'', ''2024-10-12T00:00:00.000Z'']"
  "isoDateParse ''2024-10-10T00:00:00.000Z'' = Some 1728518400000"
  "isoDateParse ''2024-10-12T00:00:00.000Z'' = Some 1728691200000"
  by code_simp+

text \<open>The policy on the two listings.\<close>

theorem mergeDuplicates_policy_witness:
  "source (mergeDuplicates listingDevpost [listingMLH]) = MLH
   \<and> title (mergeDuplicates listingDevpost [listingMLH]) = ''Hack!''
   \<and> registration_deadline (mergeDuplicates listingDevpost [listingMLH])
       = Some ''2024-10-10T00:00:00.000Z''
   \<and> registration_url (mergeDuplicates listingDevpost [listingMLH]) = Some ''https://d.example/r''
   \<and> website_url (mergeDuplicates listingDevpost [listingMLH]) = None
   \<and> description (mergeDuplicates listingDevpost [listingMLH]) = Some ''bb''"
proof -
  let ?m = "mergeDuplicates listingDevpost [listingMLH]"
  let ?all = "[listingDevpost, listingMLH]"
  note policy = mergeDuplicates_policy [of listingDevpost "[listingMLH]"]
  have base: "mergeBase listingDevpost [listingMLH] = listingMLH"
    by code_simp
  have iso: "presentValues registration_deadline ?all \<noteq> []
      \<and> list_all isoTimestamp (presentValues registration_deadline ?all)"
    by (simp add: listing_deadlines isoTimestamp_def)
  have ru: "(case firstOf (presentValues registration_url ?all) of
               None \<Rightarrow> registration_url listingMLH | Some u \<Rightarrow> Some u) = Some ''https://d.example/r''"
    by code_simp
  have wu: "ownOrFirstPresent website_url listingMLH ?all = None"
    by code_simp
  have s: "source listingMLH = MLH" "title listingMLH = ''Hack!''"
    by (simp_all add: listingMLH_def)
  have ds: "description listingDevpost = Some ''bb''" "description listingMLH = Some ''a''"
    by (simp_all add: listingDevpost_def listingMLH_def)
  from policy have p: "source ?m = source listingMLH" "title ?m = title listingMLH"
    "registration_url ?m = Some ''https://d.example/r''"
    "website_url ?m = None"
    unfolding base ru wu by blast+
  from policy iso obtain d t where d: "registration_deadline ?m = Some d"
    "d \<in> set (presentValues registration_deadline ?all)" "isoDateParse d = Some t"
    "\<forall>d' \<in> set (presentValues registration_deadline ?all). \<exists>t'. isoDateParse d' = Some t' \<and> t \<le> t'"
    by blast
  from d(2,3,4) have "d = ''2024-10-10T00:00:00.000Z''"
    unfolding listing_deadlines(1) by (auto simp: listing_deadlines(2,3))
  with d(1) have dl: "registration_deadline ?m = Some ''2024-10-10T00:00:00.000Z''"
    by simp
  from policy have "(\<exists>e \<in> set ?all. description ?m = description e)
          \<and> (\<forall>e \<in> set ?all. lengthOr0 (description e) \<le> lengthOr0 (description ?m))"
    by simp
  then have de: "description ?m = Some ''bb''"
    by (auto simp: ds lengthOr0_def)
  from p s dl de show ?thesis
    by simp
qed

section \<open>Validation of candidates, and a path without it\<close>

lemma missing_empty:
  "(filter (\<lambda>field. \<not> truthy (requiredField d field))
      [''title'', ''start_date'', ''end_date'', ''location'', ''source''] = [])
   = allRequiredPresent d"
  by (cases "p_source d") (auto simp: requiredField_def allRequiredPresent_def truthy_def sourceTag_def split: source.splits)

lemma validateHackathon_ok:
  "(validateHackathon dp sid d = Inr ()) =
     (allRequiredPresent d \<and>
      \<not> dateGe (case p_start_date d of Some s \<Rightarrow> dp s | None \<Rightarrow> None)
                (case p_end_date d of Some s \<Rightarrow> dp s | None \<Rightarrow> None))"
  using missing_empty [of d]
  by (simp add: validateHackathon_def Let_def del: filter.simps)

lemma validateHackathon_error:
  "validateHackathon dp sid d \<noteq> Inr () \<Longrightarrow>
   \<exists>msg. validateHackathon dp sid d = Inl (ScrapingError msg sid None None)"
  by (auto simp: validateHackathon_def Let_def simp del: filter.simps split: if_splits)

lemma iso_parse_october:
  "isoDateParse ''2024-10-17T00:00:00.000Z'' = Some 1729123200000"
  "isoDateParse ''2024-10-15T00:00:00.000Z'' = Some 1728950400000"
  by code_simp+

lemma iso_text_october:
  "isoDateString 1729123200000 = ''2024-10-17T00:00:00.000Z''"
  "isoDateString 1728950400000 = ''2024-10-15T00:00:00.000Z''"
  by (simp_all add: isoDateString_def civilFromDays_def civilOfEra_def civilOfYear_def
      civilOfMonth_def yearOfEra_def dayOfYear_def monthFromMarch_def isoText_def
      fourDigits_def threeDigits_def twoDigits_def digitChar_def)

lemma reversed_normalizeDate:
  "normalizeDate isoDateParse isoDateString ''devpost'' ''2024-10-17T00:00:00.000Z''
     = Inr ''2024-10-17T00:00:00.000Z''"
  "normalizeDate isoDateParse isoDateString ''devpost'' ''2024-10-15T00:00:00.000Z''
     = Inr ''2024-10-15T00:00:00.000Z''"
  by (simp_all add: normalizeDate_def iso_parse_october iso_text_october)

lemma cleanText_examples:
  "cleanText ''Hack'' = ''Hack''" "cleanText ''Online'' = ''Online''"
  by code_simp+

text \<open>
  Claim C4, at an input the code gets wrong. \<open>validateHackathon\<close> itself rejects a record
  whose start is not before its end, and the element parsers call it before they return
  a record. \<open>parseStructuredEvent\<close> does not: for a JSON-LD event of a Devpost page whose
  end date lies before its start date it returns the record, \<open>extractStructuredData\<close>
  pushes it to the result of the scrape, and it is a record that \<open>validateHackathon\<close>
  rejects with \<open>Start date must be before end date\<close>.
\<close>

theorem parseStructuredEvent_unvalidated:
  "parseStructuredEvent isoDateParse isoDateString ''https://devpost.com'' reversedEvent
     = Some \<lparr>title = ''Hack'', description = None,
             start_date = ''2024-10-17T00:00:00.000Z'', end_date = ''2024-10-15T00:00:00.000Z'',
             registration_deadline = None, location = ''Online'', is_online = True,
             website_url = Some ''https://devpost.com/hack'', registration_url = None,
             source = Devpost\<rparr>
   \<and> structuredEvents isoDateParse isoDateString ''https://devpost.com'' [reversedEvent]
     = [\<lparr>title = ''Hack'', description = None,
         start_date = ''2024-10-17T00:00:00.000Z'', end_date = ''2024-10-15T00:00:00.000Z'',
         registration_deadline = None, location = ''Online'', is_online = True,
         website_url = Some ''https://devpost.com/hack'', registration_url = None,
         source = Devpost\<rparr>]
   \<and> validateHackathon isoDateParse ''devpost''
       (asPartial \<lparr>title = ''Hack'', description = None,
          start_date = ''2024-10-17T00:00:00.000Z'', end_date = ''2024-10-15T00:00:00.000Z'',
          registration_deadline = None, location = ''Online'', is_online = True,
          website_url = Some ''https://devpost.com/hack'', registration_url = None,
          source = Devpost\<rparr>)
     = Inl (ScrapingError ''Start date must be before end date'' ''devpost'' None None)"
proof -
  let ?r = "\<lparr>title = ''Hack'', description = None,
             start_date = ''2024-10-17T00:00:00.000Z'', end_date = ''2024-10-15T00:00:00.000Z'',
             registration_deadline = None, location = ''Online'', is_online = True,
             website_url = Some ''https://devpost.com/hack'', registration_url = None,
             source = Devpost\<rparr>"
  have p: "parseStructuredEvent isoDateParse isoDateString ''https://devpost.com'' reversedEvent
             = Some ?r"
    by (simp add: parseStructuredEvent_def reversedEvent_def reversed_normalizeDate
        cleanText_examples locationOf_def truthy_def jsOr_def startsWith_def)
  then have s: "structuredEvents isoDateParse isoDateString ''https://devpost.com'' [reversedEvent]
             = [?r]"
    by (simp add: structuredEvents_def List.map_filter_simps)
  have v: "validateHackathon isoDateParse ''devpost'' (asPartial ?r)
             = Inl (ScrapingError ''Start date must be before end date'' ''devpost'' None None)"
    by (simp add: validateHackathon_def asPartial_def requiredField_def truthy_def sourceTag_def
        iso_parse_october dateGe_def)
  from p s v show ?thesis
    by blast
qed

section \<open>Retries of the HTTP client\<close>

lemma alwaysFails_at:
  "alwaysFails net n \<Longrightarrow> 1 \<le> k \<Longrightarrow> k \<le> n \<Longrightarrow> tryFetch (net k) = Inl (failureOf (net k))"
proof -
  assume a: "alwaysFails net n" "1 \<le> k" "k \<le> n"
  from a(2,3) have "k \<in> set [1..<Suc n]"
    by auto
  with a(1) have "isl (tryFetch (net k))"
    unfolding alwaysFails_def list_all_iff by blast
  then show ?thesis
    by (cases "tryFetch (net k)") (simp_all add: failureOf_def)
qed

lemma retryTrace_last: "retryTrace c url (maxRetries c) = [Fetch url (maxRetries c)]"
  by (simp add: retryTrace_def)

lemma retryTrace_step:
  "a < maxRetries c \<Longrightarrow>
   retryTrace c url a = [Fetch url a, Sleep (retryDelay c * 2 ^ (a - 1))] @ retryTrace c url (a + 1)"
  by (simp add: retryTrace_def upt_conv_Cons)

lemma makeRequest_fails:
  assumes "alwaysFails net (maxRetries c)"
  shows "1 \<le> a \<Longrightarrow> a \<le> maxRetries c \<Longrightarrow>
    makeRequest c net url source_id a =
      (Inl (ScrapingError
              (''Failed to fetch '' @ url @ '' after '' @ showNat (maxRetries c) @ '' attempts'')
              source_id (Some url) (Some (failureOf (net (maxRetries c))))),
       retryTrace c url a)"
proof (induction "maxRetries c - a" arbitrary: a)
  case 0
  then have a: "a = maxRetries c"
    by simp
  from alwaysFails_at [OF assms "0.prems"] have "tryFetch (net a) = Inl (failureOf (net a))" .
  then show ?case
    by (subst makeRequest.simps) (simp add: a retryTrace_last)
next
  case (Suc n)
  then have lt: "a < maxRetries c"
    by simp
  from alwaysFails_at [OF assms Suc.prems] have f: "tryFetch (net a) = Inl (failureOf (net a))" .
  from Suc.hyps(2) have "n = maxRetries c - (a + 1)"
    by simp
  from Suc.hyps(1) [OF this] lt
  have "makeRequest c net url source_id (a + 1) =
      (Inl (ScrapingError
              (''Failed to fetch '' @ url @ '' after '' @ showNat (maxRetries c) @ '' attempts'')
              source_id (Some url) (Some (failureOf (net (maxRetries c))))),
       retryTrace c url (a + 1))"
    by simp
  then show ?case
    by (subst makeRequest.simps) (simp add: f lt retryTrace_step [OF lt] del: showNat.simps)
qed

lemma newHttpClient_maxRetries:
  "1 \<le> maxRetries (newHttpClient options)"
  "opt_maxRetries options = None \<Longrightarrow> maxRetries (newHttpClient options) = 3"
  "opt_retryDelay options = None \<Longrightarrow> retryDelay (newHttpClient options) = 1000"
  by (auto simp: newHttpClient_def numberOr_def split: option.splits)

text \<open>
  Claim C5. When the fetch of a URL fails at every attempt (a response outside 200-299 or a
  rejected request), \<open>get\<close> makes \<open>maxRetries\<close> attempts in all (3 when the option is
  omitted), sleeps \<open>retryDelay * 2^(attempt - 1)\<close> after each failed attempt but the
  last, and then fails with a \<open>ScrapingError\<close> that carries the source id, the URL, the
  number of attempts (in its message) and the error of the last attempt; the error is the
  result of \<open>get\<close>.
\<close>

theorem get_persistent_failure:
  assumes "c = newHttpClient options" and "alwaysFails net (maxRetries c)"
  shows "get c net url source_id =
      (Inl (ScrapingError
              (''Failed to fetch '' @ url @ '' after '' @ showNat (maxRetries c) @ '' attempts'')
              source_id (Some url) (Some (failureOf (net (maxRetries c))))),
       concat (map (\<lambda>attempt. [Fetch url attempt, Sleep (retryDelay c * 2 ^ (attempt - 1))])
                   [1..<maxRetries c])
       @ [Fetch url (maxRetries c)])
    \<and> (opt_maxRetries options = None \<longrightarrow> maxRetries c = 3)"
proof -
  from assms(1) newHttpClient_maxRetries(1) [of options] have "1 \<le> maxRetries c"
    by simp
  from makeRequest_fails [OF assms(2) _ this, of url source_id] newHttpClient_maxRetries(2) [of options] assms(1)
  show ?thesis
    by (simp add: get_def retryTrace_def del: showNat.simps)
qed

text \<open>A server that answers 503 to every attempt, with the default options.\<close>

theorem get_persistent_failure_witness:
  "alwaysFails serverDown (maxRetries (newHttpClient defaultOptions))
   \<and> get (newHttpClient defaultOptions) serverDown ''https://devpost.com/hackathons'' ''devpost'' =
      (Inl (ScrapingError ''Failed to fetch https://devpost.com/hackathons after 3 attempts''
              ''devpost'' (Some ''https://devpost.com/hackathons'')
              (Some (Error ''HTTP 503: Service Unavailable''))),
       [Fetch ''https://devpost.com/hackathons'' 1, Sleep 1000,
        Fetch ''https://devpost.com/hackathons'' 2, Sleep 2000,
        Fetch ''https://devpost.com/hackathons'' 3])"
proof -
  have m: "maxRetries (newHttpClient defaultOptions) = 3" "retryDelay (newHttpClient defaultOptions) = 1000"
    by (simp_all add: newHttpClient_def defaultOptions_def numberOr_def)
  have t: "tryFetch (serverDown k) = Inl (Error ''HTTP 503: Service Unavailable'')" for k
    by (simp add: tryFetch_def serverDown_def digitChar_def)
  have f: "alwaysFails serverDown (maxRetries (newHttpClient defaultOptions))"
    by (simp add: alwaysFails_def list_all_iff t)
  have e: "failureOf (serverDown 3) = Error ''HTTP 503: Service Unavailable''"
    by (simp add: failureOf_def t)
  have s: "showNat 3 = ''3''"
    by (simp add: digitChar_def)
  have u: "[1..<3] = [1, 2::nat]"
    by (simp add: upt_rec)
  from get_persistent_failure [OF refl f, of "''https://devpost.com/hackathons''" "''devpost''"]
  have "get (newHttpClient defaultOptions) serverDown ''https://devpost.com/hackathons'' ''devpost'' =
      (Inl (ScrapingError ''Failed to fetch https://devpost.com/hackathons after 3 attempts''
              ''devpost'' (Some ''https://devpost.com/hackathons'')
              (Some (Error ''HTTP 503: Service Unavailable''))),
       [Fetch ''https://devpost.com/hackathons'' 1, Sleep 1000,
        Fetch ''https://devpost.com/hackathons'' 2, Sleep 2000,
        Fetch ''https://devpost.com/hackathons'' 3])"
    unfolding m e s u by simp
  with f show ?thesis
    by simp
qed

section \<open>Politeness: a disallowed path and a later block\<close>

lemma robotsLines_twoBlocks:
  "robotsLines robotsTwoBlocks =
     [''user-agent: *'', ''disallow: /hackathons'', [], ''user-agent: googlebot'',
      ''disallow: /private'']"
  by code_simp

lemma robotsRules_twoBlocks:
  "robotsRules ''HackathonSnifferBot'' (robotsLines robotsTwoBlocks) =
     \<lparr>currentUserAgent = ''googlebot'', isRelevantSection = False, disallowed = [], allowed = []\<rparr>"
  unfolding robotsLines_twoBlocks by code_simp

text \<open>
  Claim C6, at a file the code gets wrong. With \<open>Disallow: /hackathons\<close> under
  \<open>User-agent: *\<close> and nothing else, the path is evaluated as forbidden and the run of the
  Devpost adapter ends with an adapter error before \<open>scrape\<close>: no fetch is made. When a
  block for another crawler follows, its \<open>User-agent\<close> line empties the rules collected for
  \<open>*\<close>: the loop ends with no rule at all, the path is evaluated as permitted, the
  compliance check passes, and the run goes on to \<open>scrape\<close>, whose fetch of \<open>/hackathons\<close>
  is in the trace.
\<close>

theorem robots_later_block_drops_rules:
  "\<not> isAllowedByRobotsTxt (Some robotsPlain) ''HackathonSnifferBot'' ''/hackathons''
   \<and> runAdapterIngestion processNothing
        (devpostAdapter (Inr [], [Fetch ''https://devpost.com/hackathons'' 1])) (Some robotsPlain)
       = (\<lparr>r_source_id = ''devpost'', events_found = 0, events_processed = 0,
            events_created = 0, events_updated = 0,
            errors = [''Adapter error: Devpost scraping is not compliant with robots.txt'']\<rparr>,
          [])
   \<and> isAllowedByRobotsTxt (Some robotsTwoBlocks) ''HackathonSnifferBot'' ''/hackathons''
   \<and> isRobotsTxtCompliant (devpostAdapter (Inr [], [Fetch ''https://devpost.com/hackathons'' 1]))
        (Some robotsTwoBlocks)
   \<and> runAdapterIngestion processNothing
        (devpostAdapter (Inr [], [Fetch ''https://devpost.com/hackathons'' 1])) (Some robotsTwoBlocks)
       = (\<lparr>r_source_id = ''devpost'', events_found = 0, events_processed = 0,
            events_created = 0, events_updated = 0, errors = []\<rparr>,
          [Fetch ''https://devpost.com/hackathons'' 1])"
proof -
  let ?a = "devpostAdapter (Inr [], [Fetch ''https://devpost.com/hackathons'' 1])"
  have plain: "\<not> isAllowedByRobotsTxt (Some robotsPlain) ''HackathonSnifferBot'' ''/hackathons''"
    by code_simp
  have ne: "robotsPlain \<noteq> []" "robotsTwoBlocks \<noteq> []"
    by (simp_all add: robotsPlain_def robotsTwoBlocks_def)
  have two: "isAllowedByRobotsTxt (Some robotsTwoBlocks) ''HackathonSnifferBot'' ''/hackathons''"
    using ne by (simp add: isAllowedByRobotsTxt_def robotsRules_twoBlocks)
  have c1: "\<not> isRobotsTxtCompliant ?a (Some robotsPlain)"
    using plain ne by (simp add: isRobotsTxtCompliant_def devpostAdapter_def truthy_def)
  have c2: "isRobotsTxtCompliant ?a (Some robotsTwoBlocks)"
    using two ne by (simp add: isRobotsTxtCompliant_def devpostAdapter_def truthy_def)
  have r1: "runAdapterIngestion processNothing ?a (Some robotsPlain)
       = (\<lparr>r_source_id = ''devpost'', events_found = 0, events_processed = 0,
            events_created = 0, events_updated = 0,
            errors = [''Adapter error: Devpost scraping is not compliant with robots.txt'']\<rparr>,
          [])"
    using c1 by (simp add: runAdapterIngestion_def Let_def) (simp add: devpostAdapter_def)
  have r2: "runAdapterIngestion processNothing ?a (Some robotsTwoBlocks)
       = (\<lparr>r_source_id = ''devpost'', events_found = 0, events_processed = 0,
            events_created = 0, events_updated = 0, errors = []\<rparr>,
          [Fetch ''https://devpost.com/hackathons'' 1])"
    using c2 by (simp add: runAdapterIngestion_def Let_def) (simp add: devpostAdapter_def)
  from plain r1 two c2 r2 show ?thesis
    by blast
qed

section \<open>One run at a time\<close>

lemma schedulerInv_new: "schedulerInv newScheduler"
  by (simp add: schedulerInv_def newScheduler_def)

lemma schedulerInv_begin:
  assumes "schedulerInv s"
  shows "schedulerInv (snd (runIngestion s))"
proof (cases "isRunning s")
  case True
  with assms show ?thesis by (simp add: runIngestion_def)
next
  case False
  with assms have e: "inFlight s = []"
    by (simp add: schedulerInv_def)
  from assms have "\<forall>w \<in> set (storeWrites s). w < started s" "sorted (storeWrites s)"
    by (simp_all add: schedulerInv_def)
  with False e show ?thesis
    by (auto simp: schedulerInv_def runIngestion_def less_Suc_eq less_imp_le)
qed

lemma schedulerInv_tick:
  assumes "schedulerInv s"
  shows "schedulerInv (snd (cronTick s))"
proof (cases "isRunning s")
  case True
  with assms show ?thesis by (simp add: cronTick_def schedulerInv_def)
next
  case False
  with schedulerInv_begin [OF assms] show ?thesis by (simp add: cronTick_def)
qed

lemma schedulerInv_write:
  assumes "schedulerInv s"
  shows "schedulerInv (storeWrite r s)"
proof (cases "r \<in> set (inFlight s)")
  case False
  with assms show ?thesis by (simp add: storeWrite_def)
next
  case True
  from assms have "length (inFlight s) \<le> 1"
    by (simp add: schedulerInv_def)
  with True have one: "inFlight s = [r]"
    by (cases "inFlight s") auto
  with assms show ?thesis
    by (auto simp: schedulerInv_def storeWrite_def sorted_append)
qed

lemma schedulerInv_finish:
  assumes "schedulerInv s"
  shows "schedulerInv (finishRun r s)"
proof (cases "r \<in> set (inFlight s)")
  case False
  with assms show ?thesis by (simp add: finishRun_def)
next
  case True
  from assms have "length (inFlight s) \<le> 1"
    by (simp add: schedulerInv_def)
  with True have one: "inFlight s = [r]"
    by (cases "inFlight s") auto
  with assms show ?thesis
    by (auto simp: schedulerInv_def finishRun_def)
qed

lemma schedulerInv_step: "schedulerInv s \<Longrightarrow> schedulerInv (schedulerStep s ev)"
  by (cases ev)
     (simp_all add: schedulerStep_def schedulerInv_tick schedulerInv_begin schedulerInv_write
        schedulerInv_finish)

lemma schedulerInv_foldl: "schedulerInv s \<Longrightarrow> schedulerInv (foldl schedulerStep s evs)"
  by (induction evs arbitrary: s) (simp_all add: schedulerInv_step)

lemma schedulerInv_after: "schedulerInv (afterEvents evs)"
  unfolding afterEvents_def by (rule schedulerInv_foldl [OF schedulerInv_new])

lemma sorted_neverInterleaved: "sorted ws \<Longrightarrow> neverInterleaved ws"
  unfolding neverInterleaved_def
proof (intro allI impI)
  fix i j k
  assume s: "sorted ws" and h: "i < j \<and> j < k \<and> k < length ws \<and> ws ! i = ws ! k"
  from h have b: "i \<le> j" "j < length ws" "j \<le> k" "k < length ws"
    by simp_all
  have "ws ! i \<le> ws ! j"
    by (rule sorted_nth_mono [OF s b(1,2)])
  moreover have "ws ! j \<le> ws ! k"
    by (rule sorted_nth_mono [OF s b(3,4)])
  ultimately show "ws ! j = ws ! i"
    using h by simp
qed

text \<open>
  Claim C7, as the code has it. After any sequence of cron ticks, manual triggers, store
  writes and run endings: at most one run is in progress, and the flag \<open>isRunning\<close> is set
  exactly when one is (idle, running, idle); the store writes of two runs are never
  interleaved; and while a run is in progress a cron tick is skipped with one logged line
  and starts nothing, and a manual \<open>runIngestion\<close> call throws
  \<open>Error('Ingestion is already running')\<close> and changes nothing. Neither is queued.
\<close>

theorem scheduler_single_run:
  "length (inFlight (afterEvents evs)) \<le> 1
   \<and> isRunning (afterEvents evs) = (inFlight (afterEvents evs) \<noteq> [])
   \<and> neverInterleaved (storeWrites (afterEvents evs))
   \<and> (isRunning (afterEvents evs) \<longrightarrow>
        cronTick (afterEvents evs) =
          (Skipped, (afterEvents evs)\<lparr>console := console (afterEvents evs)
                       @ [''Ingestion already running, skipping this cycle'']\<rparr>)
        \<and> runIngestion (afterEvents evs) =
          (Thrown (Error ''Ingestion is already running''), afterEvents evs))"
proof -
  from schedulerInv_after [of evs]
  have "length (inFlight (afterEvents evs)) \<le> 1"
    "isRunning (afterEvents evs) = (inFlight (afterEvents evs) \<noteq> [])"
    "sorted (storeWrites (afterEvents evs))"
    by (simp_all add: schedulerInv_def)
  then show ?thesis
    by (simp add: sorted_neverInterleaved cronTick_def runIngestion_def)
qed

text \<open>
  The claim as worded fails for the manual trigger: during the first run the call is not
  skipped but throws, and the scheduler logs nothing.
\<close>

theorem scheduler_counterexample:
  "isRunning duringFirstRun
   \<and> fst (runIngestion duringFirstRun) \<noteq> Skipped
   \<and> fst (runIngestion duringFirstRun) = Thrown (Error ''Ingestion is already running'')
   \<and> console (snd (runIngestion duringFirstRun)) = console duringFirstRun"
  by code_simp

text \<open>A tick and a manual trigger that arrive during the first run.\<close>

theorem scheduler_single_run_witness:
  "isRunning (afterEvents [CronTick, StoreWrite 0])
   \<and> inFlight (afterEvents [CronTick, StoreWrite 0]) = [0]
   \<and> fst (cronTick (afterEvents [CronTick, StoreWrite 0])) = Skipped
   \<and> runIngestion (afterEvents [CronTick, StoreWrite 0]) =
       (Thrown (Error ''Ingestion is already running''), afterEvents [CronTick, StoreWrite 0])"
proof -
  have r: "isRunning (afterEvents [CronTick, StoreWrite 0])"
    by code_simp
  have i: "inFlight (afterEvents [CronTick, StoreWrite 0]) = [0]"
    by code_simp
  from scheduler_single_run [of "[CronTick, StoreWrite 0]"] r i show ?thesis
    by simp
qed

section \<open>Date ranges of the listings\<close>














section \<open>Canonical URLs: what \<open>canonicalizeUrl\<close> returns\<close>


lemma setHostname_query [simp]:
  "setHostname v (u\<lparr>u_query := q\<rparr>) = (setHostname v u)\<lparr>u_query := q\<rparr>"
  by (auto simp: setHostname_def isSpecial_def includesCredentials_def)

lemma hostnameOf_query [simp]: "hostnameOf (u\<lparr>u_query := q\<rparr>) = hostnameOf u"
  by (simp add: hostnameOf_def)




end
